theory Spec2Isabelle
  imports Main
begin

section \<open>The node store of \<open>aatree.c\<close>\<close>

text \<open>
  Nodes are intrusive: \<open>struct AANode\<close> is embedded in a caller payload and the tree
  links nodes by pointer. A pointer is an address, the memory is a store from addresses to
  node records, and every function takes the store and returns the updated one.
  The declarations of \<open>aatree.h\<close> (the struct, the state enum) are read off their uses
  in \<open>aatree.c\<close>: the initialiser of \<open>_nil\<close> gives the field order
  left, right, parent, level, state.
\<close>

type_synonym addr = nat

datatype AANodeState = Open | Insert | Balancing

record AANode =
  left :: addr
  right :: addr
  parent :: addr
  level :: int
  state :: AANodeState

type_synonym heap = "addr \<Rightarrow> AANode"

text \<open>The sentinel \<open>_nil\<close>: \<open>{ NIL, NIL, NIL, 0, Open }\<close>, at the address \<open>NIL\<close>.\<close>

definition NIL :: addr where
  "NIL = 0"

definition nil_node :: AANode where
  "nil_node = \<lparr>left = NIL, right = NIL, parent = NIL, level = 0, state = Open\<rparr>"

text \<open>A failure of the run: \<open>abort()\<close> (also a failed \<open>Assert\<close> and a call through a
  null callback), or a loop that did not finish within the fuel given.\<close>

datatype error = Aborted | OutOfFuel

subsection \<open>Atomic accessors\<close>

definition node_atomic_set_left :: "heap \<Rightarrow> addr \<Rightarrow> addr \<Rightarrow> heap" where
  "node_atomic_set_left h self v = h(self := (h self)\<lparr>left := v\<rparr>)"

definition node_atomic_set_right :: "heap \<Rightarrow> addr \<Rightarrow> addr \<Rightarrow> heap" where
  "node_atomic_set_right h self v = h(self := (h self)\<lparr>right := v\<rparr>)"

definition node_atomic_set_parent :: "heap \<Rightarrow> addr \<Rightarrow> addr \<Rightarrow> heap" where
  "node_atomic_set_parent h self v = h(self := (h self)\<lparr>parent := v\<rparr>)"

definition node_atomic_set_level :: "heap \<Rightarrow> addr \<Rightarrow> int \<Rightarrow> heap" where
  "node_atomic_set_level h self lv = h(self := (h self)\<lparr>level := lv\<rparr>)"

definition node_atomic_set_state :: "heap \<Rightarrow> addr \<Rightarrow> AANodeState \<Rightarrow> heap" where
  "node_atomic_set_state h self st = h(self := (h self)\<lparr>state := st\<rparr>)"

abbreviation node_atomic_get_left :: "heap \<Rightarrow> addr \<Rightarrow> addr" where
  "node_atomic_get_left h self \<equiv> left (h self)"

abbreviation node_atomic_get_right :: "heap \<Rightarrow> addr \<Rightarrow> addr" where
  "node_atomic_get_right h self \<equiv> right (h self)"

abbreviation node_atomic_get_parent :: "heap \<Rightarrow> addr \<Rightarrow> addr" where
  "node_atomic_get_parent h self \<equiv> parent (h self)"

abbreviation node_atomic_get_level :: "heap \<Rightarrow> addr \<Rightarrow> int" where
  "node_atomic_get_level h self \<equiv> level (h self)"

abbreviation node_atomic_get_state :: "heap \<Rightarrow> addr \<Rightarrow> AANodeState" where
  "node_atomic_get_state h self \<equiv> state (h self)"

text \<open>
  \<open>atomic_compare_exchange_weak(&node->state, &expected, desired)\<close> run by one thread:
  it succeeds exactly when the state is the expected one (the spurious failure the weak
  form allows is not modelled).
\<close>

definition atomic_compare_exchange_weak ::
  "heap \<Rightarrow> addr \<Rightarrow> AANodeState \<Rightarrow> AANodeState \<Rightarrow> bool \<times> heap" where
  "atomic_compare_exchange_weak h node expected desired =
     (if state (h node) = expected then (True, node_atomic_set_state h node desired)
      else (False, h))"

definition atomic_rebalancing_state_compare_exchange_weak ::
  "heap \<Rightarrow> addr \<Rightarrow> AANodeState \<Rightarrow> bool \<times> heap" where
  "atomic_rebalancing_state_compare_exchange_weak h node st =
     (case atomic_compare_exchange_weak h node st Balancing of
        (True, h') \<Rightarrow> (True, h')
      | (False, h') \<Rightarrow> atomic_compare_exchange_weak h' node Open Balancing)"

subsection \<open>Acquisition and release\<close>

definition MAX_ACQUIRED_NODES :: nat where
  "MAX_ACQUIRED_NODES = 10"

text \<open>
  The array \<open>acquired\<close> is the list of its slots. \<open>rebalancing_release\<close> sets every
  slot that is not \<open>NIL\<close> back to \<open>Open\<close>.
\<close>

fun rebalancing_release :: "heap \<Rightarrow> addr list \<Rightarrow> heap" where
  "rebalancing_release h [] = h"
| "rebalancing_release h (a # acquired) =
     rebalancing_release (if a \<noteq> NIL then node_atomic_set_state h a Open else h) acquired"

text \<open>
  The seven blocks after the claim of \<open>x\<close> have one shape:
  \<open>if (n != NIL && !is_already_acquired(n, acq_count)) { CAS or goto release_and_fail;
  acquired[acq_count++] = n; }\<close>.
  \<open>claim_neighbours\<close> runs them over the neighbours in the order of the source; \<open>acq\<close>
  is the filled part \<open>acquired[0..acq_count)\<close>, the slots after it still hold \<open>NIL\<close>.
  The result is the success flag, the filled part, and the store.
\<close>

fun claim_neighbours ::
  "heap \<Rightarrow> AANodeState \<Rightarrow> addr list \<Rightarrow> addr list \<Rightarrow> bool \<times> addr list \<times> heap" where
  "claim_neighbours h state_from acq [] = (True, acq, h)"
| "claim_neighbours h state_from acq (n # ns) =
     (if n \<noteq> NIL \<and> n \<notin> set acq then
        (case atomic_rebalancing_state_compare_exchange_weak h n state_from of
           (True, h') \<Rightarrow> claim_neighbours h' state_from (acq @ [n]) ns
         | (False, h') \<Rightarrow> (False, acq, rebalancing_release h' acq))
      else claim_neighbours h state_from acq ns)"

definition pad_acquired :: "addr list \<Rightarrow> addr list" where
  "pad_acquired acq = acq @ replicate (MAX_ACQUIRED_NODES - length acq) NIL"

definition rebalancing_acquire ::
  "heap \<Rightarrow> addr \<Rightarrow> AANodeState \<Rightarrow> bool \<times> addr list \<times> heap" where
  "rebalancing_acquire h x state_from =
     (let x_parent = node_atomic_get_parent h x;
          x_parent_parent = node_atomic_get_parent h (node_atomic_get_parent h x);
          x_left = node_atomic_get_left h x;
          x_right = node_atomic_get_right h x;
          x_left_right = (if x_left \<noteq> NIL then node_atomic_get_right h x_left else NIL);
          x_right_left = (if x_right \<noteq> NIL then node_atomic_get_left h x_right else NIL);
          x_right_right = (if x_right \<noteq> NIL then node_atomic_get_right h x_right else NIL)
      in case atomic_rebalancing_state_compare_exchange_weak h x state_from of
           (False, h') \<Rightarrow> (False, pad_acquired [], h')
         | (True, h') \<Rightarrow>
             (case claim_neighbours h' state_from [x]
                     [x_parent, x_parent_parent, x_left, x_right,
                      x_left_right, x_right_left, x_right_right] of
                (ok, acq, h'') \<Rightarrow> (ok, pad_acquired acq, h'')))"

text \<open>\<open>while (true) { if (rebalancing_acquire(...)) break; }\<close>, at most \<open>fuel\<close> attempts.\<close>

fun acquire_retry ::
  "nat \<Rightarrow> heap \<Rightarrow> addr \<Rightarrow> AANodeState \<Rightarrow> error + (addr list \<times> heap)" where
  "acquire_retry 0 h x state_from = Inl OutOfFuel"
| "acquire_retry (Suc fuel) h x state_from =
     (case rebalancing_acquire h x state_from of
        (True, acquired, h') \<Rightarrow> Inr (acquired, h')
      | (False, acquired, h') \<Rightarrow> acquire_retry fuel h' x state_from)"

subsection \<open>Skew and split\<close>

definition skew :: "heap \<Rightarrow> addr \<Rightarrow> heap \<times> addr" where
  "skew h x =
     (let y = node_atomic_get_left h x;
          x_level = node_atomic_get_level h x;
          y_level = node_atomic_get_level h y
      in if x_level = y_level \<and> x \<noteq> NIL then
           (let y_right = node_atomic_get_right h y;
                h1 = node_atomic_set_left h x y_right;
                h2 = (if y_right \<noteq> NIL then node_atomic_set_parent h1 y_right x else h1);
                h3 = node_atomic_set_right h2 y x;
                x_parent = node_atomic_get_parent h3 x;
                h4 = node_atomic_set_parent h3 y x_parent;
                h5 = node_atomic_set_parent h4 x y
            in (h5, y))
         else (h, x))"

definition split :: "heap \<Rightarrow> addr \<Rightarrow> heap \<times> addr" where
  "split h x =
     (let y = node_atomic_get_right h x;
          y_right = node_atomic_get_right h y;
          x_level = node_atomic_get_level h x;
          y_right_level = node_atomic_get_level h y_right
      in if x_level = y_right_level \<and> x \<noteq> NIL then
           (let y_left = node_atomic_get_left h y;
                h1 = node_atomic_set_right h x y_left;
                h2 = (if y_left \<noteq> NIL then node_atomic_set_parent h1 y_left x else h1);
                h3 = node_atomic_set_left h2 y x;
                h4 = node_atomic_set_level h3 y (node_atomic_get_level h3 y + 1);
                x_parent = node_atomic_get_parent h4 x;
                h5 = node_atomic_set_parent h4 y x_parent;
                h6 = node_atomic_set_parent h5 x y
            in (h6, y))
         else (h, x))"

subsection \<open>Rebalancing\<close>

definition rebalance_on_insert :: "nat \<Rightarrow> heap \<Rightarrow> addr \<Rightarrow> error + (heap \<times> addr)" where
  "rebalance_on_insert fuel h current =
     (case acquire_retry fuel h current Insert of
        Inl e \<Rightarrow> Inl e
      | Inr (acquired, h1) \<Rightarrow>
          (let (h2, skewed) = skew h1 current;
               (h3, new_head) = split h2 skewed
           in Inr (rebalancing_release h3 acquired, new_head)))"

text \<open>
  In \<open>rebalance_on_remove\<close> the array \<open>acquired\<close> is filled only when
  \<open>current != NIL\<close>, and released in every case. For \<open>current == NIL\<close> its contents
  are whatever the stack held: the parameter \<open>junk\<close>.
\<close>

definition rebalance_on_remove ::
  "nat \<Rightarrow> addr list \<Rightarrow> heap \<Rightarrow> addr \<Rightarrow> error + (heap \<times> addr)" where
  "rebalance_on_remove fuel junk h current =
     (case (if current \<noteq> NIL then acquire_retry fuel h current Open else Inr (junk, h)) of
        Inl e \<Rightarrow> Inl e
      | Inr (acquired, h1) \<Rightarrow>
          (let left_node = node_atomic_get_left h1 current;
               right_node = node_atomic_get_right h1 current;
               left_level = node_atomic_get_level h1 left_node;
               right_level = node_atomic_get_level h1 right_node;
               current_level = node_atomic_get_level h1 current
           in if left_level < current_level - 1 \<or> right_level < current_level - 1 then
                (let h2 = node_atomic_set_level h1 current (current_level - 1);
                     current_level = current_level - 1;
                     right_level = node_atomic_get_level h2 right_node;
                     h3 = (if right_level > current_level
                           then node_atomic_set_level h2 right_node current_level else h2);
                     (h4, current) = skew h3 current;
                     right_node = node_atomic_get_right h4 current;
                     (h5, skewed) = skew h4 right_node;
                     h6 = node_atomic_set_right h5 current skewed;
                     right_node = node_atomic_get_right h6 current;
                     right_right = node_atomic_get_right h6 right_node;
                     (h7, skewed) = skew h6 right_right;
                     h8 = node_atomic_set_right h7 right_node skewed;
                     (h9, current) = split h8 current;
                     right_node = node_atomic_get_right h9 current;
                     (h10, splitted) = split h9 right_node;
                     h11 = node_atomic_set_right h10 current splitted
                 in Inr (rebalancing_release h11 acquired, current))
              else Inr (rebalancing_release h1 acquired, current)))"

section \<open>The tree\<close>

text \<open>
  \<open>struct AATree\<close>: the root, the count, the comparator and the release callback (the
  lock \<open>rw_lock\<close> plays no part in a run by one thread). The callback is the caller's
  code: the model records whether one is set, and the nodes it was called on, in order.
\<close>

record AATree =
  root :: addr
  count :: int
  node_cmp :: "int \<Rightarrow> addr \<Rightarrow> int"
  release_cb :: bool
  released :: "addr list"

definition aatree_init :: "(int \<Rightarrow> addr \<Rightarrow> int) \<Rightarrow> bool \<Rightarrow> AATree" where
  "aatree_init cmpfn cb =
     \<lparr>root = NIL, count = 0, node_cmp = cmpfn, release_cb = cb, released = []\<rparr>"

text \<open>
  The comparator of \<open>main.c\<close>, \<open>value - my->value\<close>, over the payload \<open>val\<close> that
  \<open>container_of\<close> finds around a node. The difference is taken in \<open>uintptr_t\<close> and
  returned as an \<open>int\<close>: what is left of it modulo \<open>2 ^ 32\<close>, read as a signed number.
\<close>

definition to_int :: "int \<Rightarrow> int" where
  "to_int x = (x + 2 ^ 31) mod 2 ^ 32 - 2 ^ 31"

definition my_node_cmp :: "(addr \<Rightarrow> int) \<Rightarrow> int \<Rightarrow> addr \<Rightarrow> int" where
  "my_node_cmp val v node = to_int (v - val node)"

subsection \<open>Insertion\<close>

text \<open>The result \<open>NIL\<close> of \<open>insert_sub\<close> means: a claim failed, retry from the root.\<close>

fun insert_sub ::
  "nat \<Rightarrow> AATree \<Rightarrow> heap \<Rightarrow> addr \<Rightarrow> addr \<Rightarrow> int \<Rightarrow> addr \<Rightarrow> error + (addr \<times> AATree \<times> heap)" where
  "insert_sub 0 tree h current prev v node = Inl OutOfFuel"
| "insert_sub (Suc fuel) tree h current prev v node =
     (if current = NIL then
        (if state (h node) \<noteq> Open then Inl Aborted
         else
           (case (if prev \<noteq> NIL then atomic_compare_exchange_weak h prev Open Insert
                  else (True, h)) of
              (False, h') \<Rightarrow> Inr (NIL, tree, h')
            | (True, h') \<Rightarrow>
                (let h1 = node_atomic_set_parent h' node NIL;
                     h2 = node_atomic_set_left h1 node NIL;
                     h3 = node_atomic_set_right h2 node NIL;
                     h4 = node_atomic_set_level h3 node 1
                 in Inr (node, tree\<lparr>count := count tree + 1\<rparr>, h4))))
      else
        (let cmp = node_cmp tree v current in
         if cmp > 0 then
           (let current_right = node_atomic_get_right h current in
            if current_right = current then Inl Aborted
            else
              (case insert_sub fuel tree h current_right current v node of
                 Inl e \<Rightarrow> Inl e
               | Inr (tmp, tree', h') \<Rightarrow>
                   if tmp = NIL then Inr (NIL, tree', h')
                   else
                     (let h'' = (if tmp \<noteq> current_right
                                 then node_atomic_set_parent
                                        (node_atomic_set_right h' current tmp) tmp current
                                 else h')
                      in case rebalance_on_insert (Suc fuel) h'' current of
                           Inl e \<Rightarrow> Inl e
                         | Inr (h3, new_head) \<Rightarrow> Inr (new_head, tree', h3))))
         else if cmp < 0 then
           (let current_left = node_atomic_get_left h current in
            if current_left = current then Inl Aborted
            else
              (case insert_sub fuel tree h current_left current v node of
                 Inl e \<Rightarrow> Inl e
               | Inr (tmp, tree', h') \<Rightarrow>
                   if tmp = NIL then Inr (NIL, tree', h')
                   else
                     (let h'' = (if tmp \<noteq> current_left
                                 then node_atomic_set_parent
                                        (node_atomic_set_left h' current tmp) tmp current
                                 else h')
                      in case rebalance_on_insert (Suc fuel) h'' current of
                           Inl e \<Rightarrow> Inl e
                         | Inr (h3, new_head) \<Rightarrow> Inr (new_head, tree', h3))))
         else Inr (current, tree, h)))"

text \<open>The retry loop of \<open>aatree_insert\<close>, at most \<open>n\<close> rounds.\<close>

fun insert_retry ::
  "nat \<Rightarrow> nat \<Rightarrow> AATree \<Rightarrow> heap \<Rightarrow> int \<Rightarrow> addr \<Rightarrow> error + (AATree \<times> heap)" where
  "insert_retry 0 fuel tree h v node = Inl OutOfFuel"
| "insert_retry (Suc n) fuel tree h v node =
     (let old_root = root tree in
      case insert_sub fuel tree h old_root NIL v node of
        Inl e \<Rightarrow> Inl e
      | Inr (new_root, tree', h') \<Rightarrow>
          if new_root = NIL then insert_retry n fuel tree' h' v node
          else Inr (tree'\<lparr>root := new_root\<rparr>, h'))"

definition aatree_insert ::
  "nat \<Rightarrow> AATree \<Rightarrow> heap \<Rightarrow> int \<Rightarrow> addr \<Rightarrow> error + (AATree \<times> heap)" where
  "aatree_insert fuel tree h v node =
     insert_retry fuel fuel tree (node_atomic_set_state h node Open) v node"

subsection \<open>Removal\<close>

text \<open>\<open>steal_leftmost\<close> returns the new subtree and, through \<open>save_p\<close>, the node taken.\<close>

fun steal_leftmost ::
  "nat \<Rightarrow> addr list \<Rightarrow> heap \<Rightarrow> addr \<Rightarrow> error + (heap \<times> addr \<times> addr)" where
  "steal_leftmost 0 junk h current = Inl OutOfFuel"
| "steal_leftmost (Suc fuel) junk h current =
     (let left_node = node_atomic_get_left h current in
      if left_node = NIL then Inr (h, node_atomic_get_right h current, current)
      else
        (case steal_leftmost fuel junk h left_node of
           Inl e \<Rightarrow> Inl e
         | Inr (h', sub, save_p) \<Rightarrow>
             (case rebalance_on_remove (Suc fuel) junk (node_atomic_set_left h' current sub)
                     current of
                Inl e \<Rightarrow> Inl e
              | Inr (h'', res) \<Rightarrow> Inr (h'', res, save_p))))"

definition drop_this_node ::
  "nat \<Rightarrow> addr list \<Rightarrow> AATree \<Rightarrow> heap \<Rightarrow> addr \<Rightarrow> error + (addr \<times> AATree \<times> heap)" where
  "drop_this_node fuel junk tree h old =
     (let left_node = node_atomic_get_left h old;
          right_node = node_atomic_get_right h old
      in case (if left_node = NIL then Inr (h, right_node)
               else if right_node = NIL then Inr (h, left_node)
               else
                 (case steal_leftmost fuel junk h right_node of
                    Inl e \<Rightarrow> Inl e
                  | Inr (h', sub, new) \<Rightarrow>
                      (let h'' = node_atomic_set_right h' old sub
                       in Inr (h''(new := h'' old), new)))) of
           Inl e \<Rightarrow> Inl e
         | Inr (h1, new) \<Rightarrow>
             (let tree1 = (if release_cb tree
                           then tree\<lparr>released := released tree @ [old]\<rparr> else tree);
                  old_count = count tree1
              in Inr (new, tree1\<lparr>count := old_count - 1\<rparr>, h1)))"

fun remove_sub ::
  "nat \<Rightarrow> addr list \<Rightarrow> AATree \<Rightarrow> heap \<Rightarrow> addr \<Rightarrow> int \<Rightarrow> error + (addr \<times> AATree \<times> heap)" where
  "remove_sub 0 junk tree h current v = Inl OutOfFuel"
| "remove_sub (Suc fuel) junk tree h current v =
     (if current = NIL then Inr (current, tree, h)
      else
        (let cmp = node_cmp tree v current in
         case (if cmp > 0 then
                 (case remove_sub fuel junk tree h (node_atomic_get_right h current) v of
                    Inl e \<Rightarrow> Inl e
                  | Inr (sub, tree', h') \<Rightarrow>
                      Inr (current, tree', node_atomic_set_right h' current sub))
               else if cmp < 0 then
                 (case remove_sub fuel junk tree h (node_atomic_get_left h current) v of
                    Inl e \<Rightarrow> Inl e
                  | Inr (sub, tree', h') \<Rightarrow>
                      Inr (current, tree', node_atomic_set_left h' current sub))
               else drop_this_node (Suc fuel) junk tree h current) of
           Inl e \<Rightarrow> Inl e
         | Inr (current, tree', h') \<Rightarrow>
             (case rebalance_on_remove (Suc fuel) junk h' current of
                Inl e \<Rightarrow> Inl e
              | Inr (h'', res) \<Rightarrow> Inr (res, tree', h''))))"

definition aatree_remove ::
  "nat \<Rightarrow> addr list \<Rightarrow> AATree \<Rightarrow> heap \<Rightarrow> int \<Rightarrow> error + (AATree \<times> heap)" where
  "aatree_remove fuel junk tree h v =
     (case remove_sub fuel junk tree h (root tree) v of
        Inl e \<Rightarrow> Inl e
      | Inr (new_root, tree', h') \<Rightarrow> Inr (tree'\<lparr>root := new_root\<rparr>, h'))"

subsection \<open>Search\<close>

text \<open>The result \<open>None\<close> is the \<open>NULL\<close> that \<open>aatree_search\<close> returns for an absent key.\<close>

fun search_from :: "nat \<Rightarrow> AATree \<Rightarrow> heap \<Rightarrow> addr \<Rightarrow> int \<Rightarrow> error + addr option" where
  "search_from 0 tree h current v = Inl OutOfFuel"
| "search_from (Suc fuel) tree h current v =
     (if current \<noteq> NIL then
        (let cmp = node_cmp tree v current in
         if cmp > 0 then search_from fuel tree h (node_atomic_get_right h current) v
         else if cmp < 0 then search_from fuel tree h (node_atomic_get_left h current) v
         else Inr (Some current))
      else Inr None)"

definition aatree_search :: "nat \<Rightarrow> AATree \<Rightarrow> heap \<Rightarrow> int \<Rightarrow> error + addr option" where
  "aatree_search fuel tree h v = search_from fuel tree h (root tree) v"

subsection \<open>Walking and teardown\<close>

datatype AATreeWalkType = AA_WALK_IN_ORDER | AA_WALK_POST_ORDER | AA_WALK_PRE_ORDER

text \<open>The walker is the caller's code: the walk is the list of nodes it is called on.\<close>

fun walk_sub :: "nat \<Rightarrow> heap \<Rightarrow> addr \<Rightarrow> AATreeWalkType \<Rightarrow> error + addr list" where
  "walk_sub 0 h current wtype = Inl OutOfFuel"
| "walk_sub (Suc fuel) h current wtype =
     (let current_left = node_atomic_get_left h current;
          current_right = node_atomic_get_right h current
      in if current = NIL then Inr []
         else
           (case walk_sub fuel h current_left wtype of
              Inl e \<Rightarrow> Inl e
            | Inr ls \<Rightarrow>
                (case walk_sub fuel h current_right wtype of
                   Inl e \<Rightarrow> Inl e
                 | Inr rs \<Rightarrow>
                     Inr (case wtype of
                            AA_WALK_IN_ORDER \<Rightarrow> ls @ [current] @ rs
                          | AA_WALK_POST_ORDER \<Rightarrow> ls @ rs @ [current]
                          | AA_WALK_PRE_ORDER \<Rightarrow> [current] @ ls @ rs))))"

definition aatree_walk ::
  "nat \<Rightarrow> AATree \<Rightarrow> heap \<Rightarrow> AATreeWalkType \<Rightarrow> error + addr list" where
  "aatree_walk fuel tree h wtype = walk_sub fuel h (root tree) wtype"

definition aatree_destroy :: "nat \<Rightarrow> AATree \<Rightarrow> heap \<Rightarrow> error + (AATree \<times> heap)" where
  "aatree_destroy fuel tree h =
     (case walk_sub fuel h (root tree) AA_WALK_POST_ORDER of
        Inl e \<Rightarrow> Inl e
      | Inr ns \<Rightarrow>
          if ns \<noteq> [] \<and> \<not> release_cb tree then Inl Aborted
          else Inr (tree\<lparr>root := NIL, count := 0, released := released tree @ ns\<rparr>, h))"


subsection \<open>Sequences of calls\<close>

text \<open>
  A run is a list of calls to the public operations, each executed on the tree and the
  store its predecessor left. A removal carries the stack contents its
  \<open>rebalance_on_remove\<close> may read.
\<close>

datatype call =
    CallInsert int addr
  | CallRemove int "addr list"
  | CallSearch int
  | CallWalk AATreeWalkType
  | CallDestroy

fun run_call :: "nat \<Rightarrow> AATree \<times> heap \<Rightarrow> call \<Rightarrow> error + (AATree \<times> heap)" where
  "run_call fuel (tree, h) (CallInsert v node) = aatree_insert fuel tree h v node"
| "run_call fuel (tree, h) (CallRemove v junk) = aatree_remove fuel junk tree h v"
| "run_call fuel (tree, h) (CallSearch v) =
     (case aatree_search fuel tree h v of Inl e \<Rightarrow> Inl e | Inr res \<Rightarrow> Inr (tree, h))"
| "run_call fuel (tree, h) (CallWalk wtype) =
     (case aatree_walk fuel tree h wtype of Inl e \<Rightarrow> Inl e | Inr ns \<Rightarrow> Inr (tree, h))"
| "run_call fuel (tree, h) CallDestroy = aatree_destroy fuel tree h"

fun run_calls :: "nat \<Rightarrow> AATree \<times> heap \<Rightarrow> call list \<Rightarrow> error + (AATree \<times> heap)" where
  "run_calls fuel s [] = Inr s"
| "run_calls fuel s (c # cs) =
     (case run_call fuel s c of Inl e \<Rightarrow> Inl e | Inr s' \<Rightarrow> run_calls fuel s' cs)"


text \<open>
  The comparator of \<open>main.c\<close> orders keys as the integers do as long as their differences
  fit an \<open>int\<close>; \<open>small_key\<close> is a range of keys on which they do.
  A run is well-formed for the payload \<open>val\<close> when every inserted node is a real node
  passed once, under the key its payload holds (as \<open>my_insert\<close> of \<open>main.c\<close> does),
  and every key passed is in that range.
\<close>

definition small_key :: "int \<Rightarrow> bool" where
  "small_key v = (- (2 ^ 30) \<le> v \<and> v < 2 ^ 30)"



section \<open>Trees as values\<close>

text \<open>
  The shape a root pointer denotes in a store: a binary tree whose nodes carry their
  address and level. \<open>is_tree h p t\<close> says that following \<open>left\<close> and \<open>right\<close> from
  \<open>p\<close> in \<open>h\<close> reads exactly \<open>t\<close>.
\<close>

datatype atree = Leaf | Node atree addr int atree

fun is_tree :: "heap \<Rightarrow> addr \<Rightarrow> atree \<Rightarrow> bool" where
  "is_tree h p Leaf = (p = NIL)"
| "is_tree h p (Node l a lv r) =
     (p = a \<and> a \<noteq> NIL \<and> level (h a) = lv \<and>
      is_tree h (left (h a)) l \<and> is_tree h (right (h a)) r)"

fun nodes :: "atree \<Rightarrow> addr list" where
  "nodes Leaf = []"
| "nodes (Node l a lv r) = nodes l @ a # nodes r"

fun lvl :: "atree \<Rightarrow> int" where
  "lvl Leaf = 0"
| "lvl (Node l a lv r) = lv"

fun top :: "atree \<Rightarrow> addr" where
  "top Leaf = NIL"
| "top (Node l a lv r) = a"

fun height_t :: "atree \<Rightarrow> nat" where
  "height_t Leaf = 0"
| "height_t (Node l a lv r) = Suc (max (height_t l) (height_t r))"

fun right_of :: "atree \<Rightarrow> atree" where
  "right_of Leaf = Leaf"
| "right_of (Node l a lv r) = r"

text \<open>The balance conditions, node by node: the left child one level down, the right
  child at the same level or one down, and no right-right grandchild at the same level.\<close>

fun invar :: "atree \<Rightarrow> bool" where
  "invar Leaf = True"
| "invar (Node l a lv r) =
     (invar l \<and> invar r \<and> lvl l = lv - 1 \<and>
      (lvl r = lv - 1 \<or> lvl r = lv) \<and> lvl (right_of r) \<noteq> lv)"

fun lvpos :: "atree \<Rightarrow> bool" where
  "lvpos Leaf = True"
| "lvpos (Node l a lv r) = (lvpos l \<and> lvpos r \<and> 1 \<le> lv)"

subsection \<open>The operations on tree values\<close>

fun skew_t :: "atree \<Rightarrow> atree" where
  "skew_t (Node (Node a y ly b) x lx c) =
     (if lx = ly then Node a y ly (Node b x lx c) else Node (Node a y ly b) x lx c)"
| "skew_t t = t"

fun split_t :: "atree \<Rightarrow> atree" where
  "split_t (Node a x lx (Node b y ly (Node c z lz d))) =
     (if lx = lz then Node (Node a x lx b) y (ly + 1) (Node c z lz d)
      else Node a x lx (Node b y ly (Node c z lz d)))"
| "split_t t = t"

fun on_right :: "(atree \<Rightarrow> atree) \<Rightarrow> atree \<Rightarrow> atree" where
  "on_right f Leaf = Leaf"
| "on_right f (Node l a lv r) = Node l a lv (f r)"

fun cap_lvl :: "int \<Rightarrow> atree \<Rightarrow> atree" where
  "cap_lvl k Leaf = Leaf"
| "cap_lvl k (Node l a lv r) = Node l a (if lv > k then k else lv) r"

fun rebal_t :: "atree \<Rightarrow> atree" where
  "rebal_t Leaf = Leaf"
| "rebal_t (Node l a lv r) =
     (if lvl l < lv - 1 \<or> lvl r < lv - 1 then
        on_right split_t (split_t (on_right (on_right skew_t) (on_right skew_t
          (skew_t (Node l a (lv - 1) (cap_lvl (lv - 1) r))))))
      else Node l a lv r)"

fun insert_t :: "(int \<Rightarrow> addr \<Rightarrow> int) \<Rightarrow> int \<Rightarrow> addr \<Rightarrow> atree \<Rightarrow> atree" where
  "insert_t cmp v n Leaf = Node Leaf n 1 Leaf"
| "insert_t cmp v n (Node l a lv r) =
     (if cmp v a > 0 then split_t (skew_t (Node l a lv (insert_t cmp v n r)))
      else if cmp v a < 0 then split_t (skew_t (Node (insert_t cmp v n l) a lv r))
      else Node l a lv r)"




subsection \<open>Auxiliary notions\<close>

text \<open>
  Selectors, the search on tree values, and the key order of the in-order sequence:
  \<open>ordered val t\<close> says that the keys ascend along it and are keys the comparator of
  \<open>main.c\<close> orders correctly.
\<close>

fun left_of :: "atree \<Rightarrow> atree" where
  "left_of Leaf = Leaf"
| "left_of (Node l a lv r) = l"

fun search_t :: "(int \<Rightarrow> addr \<Rightarrow> int) \<Rightarrow> int \<Rightarrow> atree \<Rightarrow> addr option" where
  "search_t cmp v Leaf = None"
| "search_t cmp v (Node l a lv r) =
     (if cmp v a > 0 then search_t cmp v r else if cmp v a < 0 then search_t cmp v l else Some a)"

definition ordered :: "(addr \<Rightarrow> int) \<Rightarrow> atree \<Rightarrow> bool" where
  "ordered val t =
     (sorted_wrt (<) (map val (nodes t)) \<and> (\<forall>x \<in> set (nodes t). small_key (val x)))"

text \<open>A node whose right child is not at its own level.\<close>

definition sngl :: "atree \<Rightarrow> bool" where
  "sngl t = (t \<noteq> Leaf \<and> lvl (right_of t) \<noteq> lvl t)"




text \<open>
  During an acquisition: \<open>claimed h0 sf acq h\<close> holds when \<open>h\<close> is \<open>h0\<close> with
  exactly the nodes of \<open>acq\<close> moved from \<open>sf\<close> or \<open>Open\<close> to \<open>Balancing\<close>.
  \<open>neighbours\<close> are the seven nodes \<open>rebalancing_acquire\<close> reads around \<open>x\<close>.
\<close>

definition claimed :: "heap \<Rightarrow> AANodeState \<Rightarrow> addr list \<Rightarrow> heap \<Rightarrow> bool" where
  "claimed h0 sf acq h = (\<forall>n. if n \<in> set acq
      then (state (h0 n) = sf \<or> state (h0 n) = Open) \<and> h n = (h0 n)\<lparr>state := Balancing\<rparr>
      else h n = h0 n)"

definition neighbours :: "heap \<Rightarrow> addr \<Rightarrow> addr list" where
  "neighbours h x =
     [parent (h x), parent (h (parent (h x))), left (h x), right (h x),
      (if left (h x) \<noteq> NIL then right (h (left (h x))) else NIL),
      (if right (h x) \<noteq> NIL then left (h (right (h x))) else NIL),
      (if right (h x) \<noteq> NIL then right (h (right (h x))) else NIL)]"

text \<open>A small store for concrete runs: node 5 with the left child 3 at its own level,
  node 6 reserved by an insertion, node 7 (below 4) held by a rebalancing.\<close>

definition demo_heap :: heap where
  "demo_heap = (\<lambda>a. nil_node)
     (5 := \<lparr>left = 3, right = 6, parent = NIL, level = 2, state = Open\<rparr>,
      3 := \<lparr>left = 2, right = 4, parent = 5, level = 2, state = Open\<rparr>,
      2 := \<lparr>left = NIL, right = NIL, parent = 3, level = 1, state = Open\<rparr>,
      4 := \<lparr>left = NIL, right = 7, parent = 3, level = 1, state = Open\<rparr>,
      6 := \<lparr>left = NIL, right = NIL, parent = 5, level = 1, state = Insert\<rparr>,
      7 := \<lparr>left = NIL, right = NIL, parent = 4, level = 1, state = Balancing\<rparr>)"

subsection \<open>Notions for the refinement\<close>

text \<open>
  The proofs relate the functions on the store to the operations on tree values.
  \<open>nilok\<close>: the sentinel's pointers and level are intact. \<open>pclosed A h\<close>: parent
  pointers of the nodes of \<open>A\<close> stay within \<open>A\<close> and the sentinel. \<open>refines f ft\<close>:
  on a store holding a tree, \<open>f\<close> leaves the tree \<open>ft\<close> computes, touching only that
  tree's nodes and no state. The remaining definitions name the parts of the rebalancing
  functions and the postconditions of the recursive functions.
\<close>

definition nilok :: "heap \<Rightarrow> bool" where
  "nilok h = (left (h NIL) = NIL \<and> right (h NIL) = NIL \<and> parent (h NIL) = NIL \<and> level (h NIL) = 0)"

definition pclosed :: "addr set \<Rightarrow> heap \<Rightarrow> bool" where
  "pclosed A h = (\<forall>a \<in> A. parent (h a) \<in> insert NIL A)"

definition refines :: "(heap \<Rightarrow> addr \<Rightarrow> heap \<times> addr) \<Rightarrow> (atree \<Rightarrow> atree) \<Rightarrow> bool" where
  "refines f ft = (\<forall>h p t A. nilok h \<and> is_tree h p t \<and> distinct (nodes t) \<and> lvpos t \<and>
       set (nodes t) \<subseteq> A \<and> pclosed A h \<longrightarrow>
     (case f h p of (h', q) \<Rightarrow>
        is_tree h' q (ft t) \<and> (\<forall>a. a \<notin> set (nodes t) \<longrightarrow> h' a = h a) \<and>
        (\<forall>a. state (h' a) = state (h a)) \<and> pclosed A h'))"

definition with_states :: "(addr \<Rightarrow> AANodeState) \<Rightarrow> heap \<Rightarrow> heap" where
  "with_states g h = (\<lambda>a. (h a)\<lparr>state := g a\<rparr>)"

definition then_h :: "(heap \<Rightarrow> addr \<Rightarrow> heap \<times> addr) \<Rightarrow> (heap \<Rightarrow> addr \<Rightarrow> heap \<times> addr) \<Rightarrow> heap \<Rightarrow> addr \<Rightarrow> heap \<times> addr" where
  "then_h f g h p = (case f h p of (h', q) \<Rightarrow> g h' q)"





definition fix_insert :: "heap \<Rightarrow> addr \<Rightarrow> heap \<times> addr" where
  "fix_insert = then_h skew split"

definition state_blind :: "(heap \<Rightarrow> addr \<Rightarrow> heap \<times> addr) \<Rightarrow> bool" where
  "state_blind f = (\<forall>g h x. f (with_states g h) x = (with_states g (fst (f h x)), snd (f h x)))"

definition keeps :: "(atree \<Rightarrow> atree) \<Rightarrow> bool" where
  "keeps ft = (\<forall>t. nodes (ft t) = nodes t \<and> (lvpos t \<longrightarrow> lvpos (ft t)))"

definition ins_post ::
  "addr set \<Rightarrow> heap \<Rightarrow> atree \<Rightarrow> addr \<Rightarrow> addr \<Rightarrow> AATree \<Rightarrow> atree \<Rightarrow> addr \<times> AATree \<times> heap \<Rightarrow> bool" where
  "ins_post A h t prev node tree t' res =
     (case res of (q, tree', h') \<Rightarrow>
        q = top t' \<and>
        tree' = tree\<lparr>count := count tree + (if node \<in> set (nodes t') then 1 else 0)\<rparr> \<and>
        is_tree h' q t' \<and>
        (\<forall>a. a \<notin> set (nodes t) \<longrightarrow> a \<noteq> node \<longrightarrow>
             h' a = (if t = Leaf \<and> a = prev \<and> prev \<noteq> NIL then (h a)\<lparr>state := Insert\<rparr> else h a)) \<and>
        (node \<notin> set (nodes t') \<longrightarrow> h' node = h node) \<and>
        (\<forall>a \<in> insert node A.
             state (h' a) = (if t = Leaf \<and> a = prev \<and> prev \<noteq> NIL then Insert else Open)) \<and>
        pclosed (A \<union> set (nodes t')) h')"



definition dropped :: "AATree \<Rightarrow> addr \<Rightarrow> AATree" where
  "dropped tree old =
     (let tree1 = (if release_cb tree then tree\<lparr>released := released tree @ [old]\<rparr> else tree)
      in tree1\<lparr>count := count tree1 - 1\<rparr>)"


subsection \<open>Notions for whole runs\<close>

text \<open>The order in which \<open>walk_sub\<close> visits a tree value.\<close>

fun walk_t :: "AATreeWalkType \<Rightarrow> atree \<Rightarrow> addr list" where
  "walk_t w Leaf = []"
| "walk_t w (Node l a lv r) =
     (case w of
        AA_WALK_IN_ORDER \<Rightarrow> walk_t w l @ [a] @ walk_t w r
      | AA_WALK_POST_ORDER \<Rightarrow> walk_t w l @ walk_t w r @ [a]
      | AA_WALK_PRE_ORDER \<Rightarrow> [a] @ walk_t w l @ walk_t w r)"

text \<open>
  What holds between two calls of the interface. \<open>A\<close> is the set of nodes handed to
  \<open>aatree_insert\<close> so far; \<open>t\<close> is the tree value the store holds at \<open>root\<close>. The
  sentinel has its initial value, every node of \<open>A\<close> is \<open>Open\<close>, the tree is balanced and
  ordered by the keys \<open>val\<close>, and \<open>count\<close> is its size.
\<close>

definition INV :: "(addr \<Rightarrow> int) \<Rightarrow> addr set \<Rightarrow> AATree \<Rightarrow> heap \<Rightarrow> atree \<Rightarrow> bool" where
  "INV val A tree h t =
     (h NIL = nil_node \<and> NIL \<notin> A \<and> is_tree h (root tree) t \<and> set (nodes t) \<subseteq> A \<and>
      pclosed A h \<and> (\<forall>a \<in> A. state (h a) = Open) \<and> invar t \<and> ordered val t \<and>
      count tree = int (length (nodes t)) \<and> node_cmp tree = my_node_cmp val)"


text \<open>Inserting the nodes \<open>ns\<close> one after the other, each under its own key.\<close>

definition insert_calls :: "(addr \<Rightarrow> int) \<Rightarrow> addr list \<Rightarrow> call list" where
  "insert_calls val ns = map (\<lambda>n. CallInsert (val n) n) ns"

text \<open>
  Concrete inputs: a store in which nothing has been linked yet, nodes keyed by their
  address, a short run, and the tree value the demonstration store holds at node 5.
\<close>

definition empty_store :: heap where
  "empty_store = (\<lambda>a. nil_node)"

definition demo_val :: "addr \<Rightarrow> int" where
  "demo_val a = int a"


definition demo_tree :: atree where
  "demo_tree = Node (Node (Node Leaf 2 1 Leaf) 3 2 (Node Leaf 4 1 (Node Leaf 7 1 Leaf))) 5 2
                    (Node Leaf 6 1 Leaf)"

section \<open>Balance of tree values\<close>

lemma invar_lvl_nonneg: "invar t \<Longrightarrow> 0 \<le> lvl t"
  by (induction t) auto

lemma invar_lvl_pos: "invar (Node l a lv r) \<Longrightarrow> 1 \<le> lv"
  using invar_lvl_nonneg[of l] by auto

lemma invar_lvpos: "invar t \<Longrightarrow> lvpos t"
proof (induction t)
  case (Node l a lv r)
  then show ?case using invar_lvl_pos[OF Node.prems] by auto
qed simp

lemma lvl_0_Leaf: "invar t \<Longrightarrow> lvl t = 0 \<longleftrightarrow> t = Leaf"
  using invar_lvl_pos by (cases t) force+

lemma skew_t_sel:
  "1 \<le> lx \<Longrightarrow> 0 \<le> lvl l \<Longrightarrow> (lvl l = 0 \<longleftrightarrow> l = Leaf) \<Longrightarrow> skew_t (Node l x lx c) =
     (if lvl l = lx then Node (left_of l) (top l) (lvl l) (Node (right_of l) x lx c)
      else Node l x lx c)"
  by (cases l) auto

lemma split_t_sel:
  "1 \<le> lx \<Longrightarrow> (lvl (right_of r) = 0 \<longleftrightarrow> right_of r = Leaf) \<Longrightarrow> split_t (Node a x lx r) =
     (if lvl (right_of r) = lx
      then Node (Node a x lx (left_of r)) (top r) (lvl r + 1) (right_of r)
      else Node a x lx r)"
  apply (cases r) apply simp
  subgoal for b y ly rr by (cases rr) auto
  done

lemma invar_sel:
  "invar t \<Longrightarrow> t \<noteq> Leaf \<Longrightarrow>
     lvl (left_of t) = lvl t - 1 \<and> (lvl (right_of t) = lvl t - 1 \<or> lvl (right_of t) = lvl t) \<and>
     lvl (right_of (right_of t)) \<noteq> lvl t \<and> invar (left_of t) \<and> invar (right_of t) \<and> 1 \<le> lvl t"
  using invar_lvl_pos by (cases t) auto

lemma invar_right_le: "invar t \<Longrightarrow> lvl (right_of t) \<le> lvl t"
  by (cases t) auto

lemma invar_children: "invar t \<Longrightarrow> invar (left_of t) \<and> invar (right_of t)"
  by (cases t) auto

lemma skew_t_Leaf_iff[simp]: "skew_t t = Leaf \<longleftrightarrow> t = Leaf"
  by (cases t rule: skew_t.cases) auto

lemma split_t_Leaf_iff[simp]: "split_t t = Leaf \<longleftrightarrow> t = Leaf"
  by (cases t rule: split_t.cases) auto

lemma insert_t_not_Leaf[simp]: "insert_t cmp v n t \<noteq> Leaf"
  by (cases t) auto

lemma invar_NodeI:
  "invar l \<Longrightarrow> invar r \<Longrightarrow> lvl l = lv - 1 \<Longrightarrow> lvl r = lv - 1 \<or> lvl r = lv \<Longrightarrow>
   lvl (right_of r) \<noteq> lv \<Longrightarrow> invar (Node l a lv r)"
  by simp

lemma fix_right:
  assumes "invar l" "invar r'" "1 \<le> lv" "lvl l = lv - 1" "lvl r' = lv - 1 \<or> lvl r' = lv" "r' \<noteq> Leaf"
  shows "invar (split_t (skew_t (Node l a lv r')))"
    and "lvl (right_of r') \<noteq> lv \<Longrightarrow> split_t (skew_t (Node l a lv r')) = Node l a lv r'"
    and "lvl (right_of r') = lv \<Longrightarrow> lvl (split_t (skew_t (Node l a lv r'))) = lv + 1 \<and> lvl (right_of (split_t (skew_t (Node l a lv r')))) = lv"
proof -
  have nsk: "skew_t (Node l a lv r') = Node l a lv r'"
    using assms by (subst skew_t_sel) (auto simp: invar_lvl_nonneg lvl_0_Leaf)
  have sp: "split_t (Node l a lv r') = (if lvl (right_of r') = lv
      then Node (Node l a lv (left_of r')) (top r') (lvl r' + 1) (right_of r')
      else Node l a lv r')"
    using assms by (subst split_t_sel) (auto simp: lvl_0_Leaf invar_children)
  note s = invar_sel[OF assms(2,6)]
  show "lvl (right_of r') \<noteq> lv \<Longrightarrow> split_t (skew_t (Node l a lv r')) = Node l a lv r'"
    by (simp add: nsk sp)
  show "lvl (right_of r') = lv \<Longrightarrow> lvl (split_t (skew_t (Node l a lv r'))) = lv + 1 \<and> lvl (right_of (split_t (skew_t (Node l a lv r')))) = lv"
    using invar_right_le[OF assms(2)] assms(5) by (simp add: nsk sp)
  show "invar (split_t (skew_t (Node l a lv r')))"
  proof (cases "lvl (right_of r') = lv")
    case True
    have e: "lvl r' = lv" using True invar_right_le[OF assms(2)] assms(5) by arith
    have "invar (Node l a lv (left_of r'))"
      using assms s e invar_right_le[of "left_of r'"] by (intro invar_NodeI) auto
    moreover have "lvl (right_of (right_of r')) \<noteq> lv + 1"
      using invar_right_le[of "right_of r'"] s True by auto
    ultimately show ?thesis using True s e by (simp add: nsk sp)
  next
    case False
    then show ?thesis using assms by (simp add: nsk sp)
  qed
qed

lemma fix_left:
  assumes "invar l'" "invar r" "1 \<le> lv" "lvl r = lv - 1 \<or> lvl r = lv" "lvl (right_of r) \<noteq> lv" "l' \<noteq> Leaf"
     "lvl l' = lv - 1 \<or> (lvl l' = lv \<and> lvl (right_of l') = lv - 1)"
  shows "invar (split_t (skew_t (Node l' a lv r)))"
    and "lvl l' = lv - 1 \<Longrightarrow> split_t (skew_t (Node l' a lv r)) = Node l' a lv r"
    and "lvl l' = lv \<Longrightarrow> lvl r = lv - 1 \<Longrightarrow> lvl (split_t (skew_t (Node l' a lv r))) = lv"
    and "lvl l' = lv \<Longrightarrow> lvl r = lv \<Longrightarrow> lvl (split_t (skew_t (Node l' a lv r))) = lv + 1 \<and> lvl (right_of (split_t (skew_t (Node l' a lv r)))) = lv"
proof -
  have sk: "skew_t (Node l' a lv r) = (if lvl l' = lv then Node (left_of l') (top l') (lvl l') (Node (right_of l') a lv r)
      else Node l' a lv r)"
    using assms by (subst skew_t_sel) (auto simp: invar_lvl_nonneg lvl_0_Leaf)
  have sp0: "split_t (Node l' a lv r) = Node l' a lv r"
    using assms by (subst split_t_sel) (auto simp: lvl_0_Leaf invar_children)
  have sp1: "split_t (Node (left_of l') (top l') lv (Node (right_of l') a lv r)) = 
     (if lvl r = lv then Node (Node (left_of l') (top l') lv (right_of l')) a (lv + 1) r else Node (left_of l') (top l') lv (Node (right_of l') a lv r))"
    using assms by (subst split_t_sel) (auto simp: lvl_0_Leaf invar_children)
  note s = invar_sel[OF assms(1,6)]
  show "lvl l' = lv - 1 \<Longrightarrow> split_t (skew_t (Node l' a lv r)) = Node l' a lv r"
    by (simp add: sk sp0)
  show "lvl l' = lv \<Longrightarrow> lvl r = lv - 1 \<Longrightarrow> lvl (split_t (skew_t (Node l' a lv r))) = lv"
    by (simp add: sk sp1)
  show "lvl l' = lv \<Longrightarrow> lvl r = lv \<Longrightarrow> lvl (split_t (skew_t (Node l' a lv r))) = lv + 1 \<and> lvl (right_of (split_t (skew_t (Node l' a lv r)))) = lv"
    by (simp add: sk sp1)
  show "invar (split_t (skew_t (Node l' a lv r)))"
  proof (cases "lvl l' = lv")
    case True
    hence rl: "lvl (right_of l') = lv - 1" using assms(7) by auto
    have i1: "invar (Node (left_of l') (top l') lv (right_of l'))"
      using s True rl invar_right_le[of "right_of l'"] by (intro invar_NodeI) auto
    have i2: "invar (Node (right_of l') a lv r)"
      using s assms rl by (intro invar_NodeI) auto
    show ?thesis
    proof (cases "lvl r = lv")
      case T2: True
      have "invar (Node (Node (left_of l') (top l') lv (right_of l')) a (lv + 1) r)"
        using i1 assms T2 invar_right_le[OF assms(2)] by (intro invar_NodeI) auto
      then show ?thesis using True T2 by (simp add: sk sp1)
    next
      case F2: False
      have "invar (Node (left_of l') (top l') lv (Node (right_of l') a lv r))"
        using i2 s True F2 assms by (intro invar_NodeI) auto
      then show ?thesis using True F2 by (simp add: sk sp1)
    qed
  next
    case False
    hence "lvl l' = lv - 1" using assms(7) by auto
    then show ?thesis using assms False by (simp add: sk sp0)
  qed
qed

lemma insert_t_post:
  "invar t \<Longrightarrow> invar (insert_t cmp v n t) \<and>
     (lvl (insert_t cmp v n t) = lvl t \<or> (lvl (insert_t cmp v n t) = lvl t + 1 \<and> lvl (right_of (insert_t cmp v n t)) = lvl t)) \<and>
     (sngl t \<longrightarrow> lvl (insert_t cmp v n t) = lvl t)"
proof (induction t)
  case Leaf
  then show ?case by (simp add: sngl_def)
next
  case (Node l a lv r)
  define l' where "l' = insert_t cmp v n l"
  define r' where "r' = insert_t cmp v n r"
  from Node.prems have il: "invar l" and ir: "invar r" and lv: "1 \<le> lv" 
    and ll: "lvl l = lv - 1" and lr: "lvl r = lv - 1 \<or> lvl r = lv" and lrr: "lvl (right_of r) \<noteq> lv"
    using invar_lvl_pos[OF Node.prems] by auto
  note IHl = Node.IH(1)[OF il, folded l'_def] and IHr = Node.IH(2)[OF ir, folded r'_def]
  have nl: "l' \<noteq> Leaf" "r' \<noteq> Leaf" by (simp_all add: l'_def r'_def)
  consider (R) "cmp v a > 0" | (L) "\<not> cmp v a > 0" "cmp v a < 0" | (E) "\<not> cmp v a > 0" "\<not> cmp v a < 0" by blast
  then show ?case
  proof cases
    case R
    have eq: "insert_t cmp v n (Node l a lv r) = split_t (skew_t (Node l a lv r'))"
      using R by (simp add: r'_def)
    have sr: "lvl r = lv \<Longrightarrow> sngl r" using lrr lv by (cases r) (auto simp: sngl_def)
    have lr': "lvl r' = lv - 1 \<or> lvl r' = lv" using IHr lr sr by linarith
    note f = fix_right[OF il conjunct1[OF IHr] lv ll lr' nl(2), of a]
    have c: "lvl (right_of r') = lv \<Longrightarrow> lvl r = lv"
      using IHr lr invar_right_le[of r'] by linarith
    show ?thesis
    proof (cases "lvl (right_of r') = lv")
      case True
      have "sngl (Node l a lv r) \<Longrightarrow> False" using c[OF True] lv by (simp add: sngl_def)
      then show ?thesis unfolding eq using f(1) f(3)[OF True] by auto
    next
      case False
      then show ?thesis unfolding eq using f(1) f(2)[OF False] by simp
    qed
  next
    case L
    have eq: "insert_t cmp v n (Node l a lv r) = split_t (skew_t (Node l' a lv r))"
      using L by (simp add: l'_def)
    have ll': "lvl l' = lv - 1 \<or> (lvl l' = lv \<and> lvl (right_of l') = lv - 1)"
      using IHl ll by linarith
    note f = fix_left[OF conjunct1[OF IHl] ir lv lr lrr nl(1) ll', of a]
    show ?thesis
    proof (cases "lvl l' = lv")
      case True
      show ?thesis
      proof (cases "lvl r = lv")
        case T2: True
        have "sngl (Node l a lv r) \<Longrightarrow> False" using T2 lv by (simp add: sngl_def)
        then show ?thesis unfolding eq using f(1) f(4)[OF True T2] by auto
      next
        case False
        hence "lvl r = lv - 1" using lr by simp
        then show ?thesis unfolding eq using f(1) f(3)[OF True] by simp
      qed
    next
      case False
      hence "lvl l' = lv - 1" using ll' by simp
      then show ?thesis unfolding eq using f(1) f(2) by simp
    qed
  next
    case E
    then show ?thesis using Node.prems by simp
  qed
qed
























theorem invar_insert_t: "invar t \<Longrightarrow> invar (insert_t cmp v n t)"
  using insert_t_post[of t cmp v n] by simp

section \<open>Order and membership of tree values\<close>

lemma nodes_skew_t[simp]: "nodes (skew_t t) = nodes t"
  by (cases t rule: skew_t.cases) auto

lemma nodes_split_t[simp]: "nodes (split_t t) = nodes t"
  by (cases t rule: split_t.cases) auto

lemma nodes_cap_lvl[simp]: "nodes (cap_lvl k t) = nodes t"
  by (cases t) auto

lemma nodes_on_right: "(\<And>u. nodes (f u) = nodes u) \<Longrightarrow> nodes (on_right f t) = nodes t"
  by (cases t) auto

lemma nodes_rebal_t[simp]: "nodes (rebal_t t) = nodes t"
  by (cases t) (simp_all add: nodes_on_right)

lemma ordered_Leaf[simp]: "ordered val Leaf"
  by (simp add: ordered_def)

lemma ordered_sorted: "ordered val t \<Longrightarrow> sorted_wrt (<) (map val (nodes t))"
  by (simp add: ordered_def)

lemma ordered_small: "ordered val t \<Longrightarrow> x \<in> set (nodes t) \<Longrightarrow> small_key (val x)"
  by (simp add: ordered_def)

lemma ordered_Node:
  "ordered val (Node l a lv r) \<longleftrightarrow>
     ordered val l \<and> ordered val r \<and> small_key (val a) \<and>
     (\<forall>x \<in> set (nodes l). val x < val a) \<and> (\<forall>x \<in> set (nodes r). val a < val x)"
proof -
  have "sorted_wrt (<) (map val (nodes (Node l a lv r))) \<longleftrightarrow>
     sorted_wrt (<) (map val (nodes l)) \<and> sorted_wrt (<) (map val (nodes r)) \<and>
     (\<forall>x \<in> set (nodes l). val x < val a) \<and> (\<forall>x \<in> set (nodes r). val a < val x)"
    by (fastforce simp: sorted_wrt_append)
  then show ?thesis unfolding ordered_def by auto
qed

lemma to_int_small: "- (2 ^ 31) \<le> x \<Longrightarrow> x < 2 ^ 31 \<Longrightarrow> to_int x = x"
  by (simp add: to_int_def)

lemma cmp_small:
  assumes "small_key v" "small_key (val n)"
  shows "my_node_cmp val v n = v - val n"
  using assms to_int_small[of "v - val n"] by (simp add: my_node_cmp_def small_key_def)

lemma cmp_gt: "small_key v \<Longrightarrow> small_key (val n) \<Longrightarrow> 0 < my_node_cmp val v n \<longleftrightarrow> val n < v"
  by (simp add: cmp_small)

lemma cmp_lt: "small_key v \<Longrightarrow> small_key (val n) \<Longrightarrow> my_node_cmp val v n < 0 \<longleftrightarrow> v < val n"
  by (simp add: cmp_small)

lemma ordered_distinct: "ordered val t \<Longrightarrow> distinct (nodes t)"
  using ordered_sorted[of val t] by (metis strict_sorted_iff distinct_map)

lemma nodes_insert_t:
  "nodes (insert_t cmp v n (Node l a lv r)) =
     (if cmp v a > 0 then nodes l @ a # nodes (insert_t cmp v n r)
      else if cmp v a < 0 then nodes (insert_t cmp v n l) @ a # nodes r
      else nodes l @ a # nodes r)"
  by simp

lemma set_insert_t:
  assumes o: "ordered val t" and sk: "small_key (val n)"
  shows "set (nodes (insert_t (my_node_cmp val) (val n) n t)) =
       (if val n \<in> val ` set (nodes t) then set (nodes t) else insert n (set (nodes t)))"
  using o
proof (induction t)
  case Leaf
  then show ?case by simp
next
  case (Node l a lv r)
  from Node.prems have ol: "ordered val l" and or: "ordered val r" and sa: "small_key (val a)"
    and lt: "\<forall>x \<in> set (nodes l). val x < val a" and gt: "\<forall>x \<in> set (nodes r). val a < val x"
    by (auto simp: ordered_Node)
  note c = cmp_gt[of "val n" val a, OF sk sa] cmp_lt[of "val n" val a, OF sk sa]
  show ?case
    unfolding nodes_insert_t using Node.IH(1)[OF ol] Node.IH(2)[OF or] lt gt
    by (auto simp: c)
qed

lemma ordered_insert_t:
  assumes o: "ordered val t" and sk: "small_key (val n)"
  shows "ordered val (insert_t (my_node_cmp val) (val n) n t)"
  using o
proof (induction t)
  case Leaf
  then show ?case using sk by (simp add: ordered_def)
next
  case (Node l a lv r)
  from Node.prems have ol: "ordered val l" and or: "ordered val r" and sa: "small_key (val a)"
    and lt: "\<forall>x \<in> set (nodes l). val x < val a" and gt: "\<forall>x \<in> set (nodes r). val a < val x"
    by (auto simp: ordered_Node)
  note c = cmp_gt[of "val n" val a, OF sk sa] cmp_lt[of "val n" val a, OF sk sa]
  have "ordered val (Node l a lv (insert_t (my_node_cmp val) (val n) n r))" if "my_node_cmp val (val n) a > 0"
    using that Node.IH(2)[OF or] ol lt gt sa set_insert_t[OF or sk]
    by (auto simp: ordered_Node c split: if_splits)
  moreover have "ordered val (Node (insert_t (my_node_cmp val) (val n) n l) a lv r)" if "my_node_cmp val (val n) a < 0"
    using that Node.IH(1)[OF ol] or lt gt sa set_insert_t[OF ol sk]
    by (auto simp: ordered_Node c split: if_splits)
  ultimately show ?case using Node.prems
    by (simp add: ordered_def)
qed





lemma search_t_found:
  assumes o: "ordered val t" and sk: "small_key v"
  shows "search_t (my_node_cmp val) v t = Some m \<longleftrightarrow> m \<in> set (nodes t) \<and> val m = v"
  using o
proof (induction t)
  case Leaf
  then show ?case by simp
next
  case (Node l a lv r)
  from Node.prems have ol: "ordered val l" and or: "ordered val r" and sa: "small_key (val a)"
    and lt: "\<forall>x \<in> set (nodes l). val x < val a" and gt: "\<forall>x \<in> set (nodes r). val a < val x"
    by (auto simp: ordered_Node)
  note c = cmp_gt[of v val a, OF sk sa] cmp_lt[of v val a, OF sk sa]
  show ?case using Node.IH(1)[OF ol] Node.IH(2)[OF or] lt gt
    by (auto simp: c)
qed

lemma search_t_None:
  assumes o: "ordered val t" and sk: "small_key v"
  shows "search_t (my_node_cmp val) v t = None \<longleftrightarrow> v \<notin> val ` set (nodes t)"
  using search_t_found[OF o sk] 
  by (cases "search_t (my_node_cmp val) v t") force+



lemma height_le_nodes: "height_t t \<le> length (nodes t)"
  by (induction t) auto

section \<open>Acquisition\<close>

lemmas setters = node_atomic_set_left_def node_atomic_set_right_def node_atomic_set_parent_def
  node_atomic_set_level_def node_atomic_set_state_def

lemma release_at:
  "rebalancing_release h acq n =
     (if n \<in> set acq \<and> n \<noteq> NIL then (h n)\<lparr>state := Open\<rparr> else h n)"
  by (induction acq arbitrary: h) (auto simp: node_atomic_set_state_def)

lemma release_pad: "rebalancing_release h (pad_acquired acq) = rebalancing_release h acq"
  by (rule ext) (auto simp: release_at pad_acquired_def)

lemma set_pad: "set (pad_acquired acq) - {NIL} = set acq - {NIL}"
  by (auto simp: pad_acquired_def)

lemma cas_cases:
  "atomic_rebalancing_state_compare_exchange_weak h n sf =
     (if state (h n) = sf \<or> state (h n) = Open
      then (True, h(n := (h n)\<lparr>state := Balancing\<rparr>)) else (False, h))"
  by (auto simp: atomic_rebalancing_state_compare_exchange_weak_def
      atomic_compare_exchange_weak_def node_atomic_set_state_def)

lemma claim_neighbours_char:
  "claimed h0 sf acq h \<Longrightarrow> claim_neighbours h sf acq ns = (ok, acq', h') \<Longrightarrow>
     set acq \<subseteq> set acq' \<and> set acq' \<subseteq> set acq \<union> (set ns - {NIL}) \<and>
     (ok \<longrightarrow> claimed h0 sf acq' h' \<and> set ns - {NIL} \<subseteq> set acq') \<and>
     (\<not> ok \<longrightarrow> (\<exists>h''. claimed h0 sf acq' h'' \<and> h' = rebalancing_release h'' acq'))"
proof (induction ns arbitrary: h acq)
  case Nil
  then show ?case by auto
next
  case (Cons n ns)
  show ?case
  proof (cases "n \<noteq> NIL \<and> n \<notin> set acq")
    case False
    with Cons.prems have "claim_neighbours h sf acq ns = (ok, acq', h')" by auto
    from Cons.IH[OF Cons.prems(1) this] False show ?thesis by auto
  next
    case True
    show ?thesis
    proof (cases "state (h n) = sf \<or> state (h n) = Open")
      case ok1: True
      let ?h1 = "h(n := (h n)\<lparr>state := Balancing\<rparr>)"
      have c1: "claimed h0 sf (acq @ [n]) ?h1"
        using Cons.prems(1) True ok1 unfolding claimed_def
        by (auto split: if_splits)
      have "claim_neighbours ?h1 sf (acq @ [n]) ns = (ok, acq', h')"
        using Cons.prems(2) True ok1 by (simp add: cas_cases)
      from Cons.IH[OF c1 this] True show ?thesis by auto
    next
      case False
      hence "ok = False" "acq' = acq" "h' = rebalancing_release h acq"
        using Cons.prems(2) True by (auto simp: cas_cases)
      then show ?thesis using Cons.prems(1) by auto
    qed
  qed
qed


lemma claimed_start:
  "state (h x) = sf \<or> state (h x) = Open \<Longrightarrow> claimed h sf [x] (h(x := (h x)\<lparr>state := Balancing\<rparr>))"
  by (auto simp: claimed_def)

lemma acquire_unfold:
  "rebalancing_acquire h x sf =
     (if state (h x) = sf \<or> state (h x) = Open then
        (case claim_neighbours (h(x := (h x)\<lparr>state := Balancing\<rparr>)) sf [x] (neighbours h x) of
           (ok, acq, h'') \<Rightarrow> (ok, pad_acquired acq, h''))
      else (False, pad_acquired [], h))"
  by (simp add: rebalancing_acquire_def cas_cases neighbours_def Let_def)

lemma acquire_char:
  assumes "rebalancing_acquire h x sf = (ok, acq, h')"
  shows "(ok \<longrightarrow> (\<exists>acq0. acq = pad_acquired acq0 \<and> claimed h sf acq0 h' \<and> x \<in> set acq0 \<and>
                  set acq0 \<subseteq> insert x (set (neighbours h x) - {NIL}) \<and>
                  set (neighbours h x) - {NIL} \<subseteq> set acq0))"
    and "(\<not> ok \<longrightarrow> (acq = pad_acquired [] \<and> h' = h) \<or>
            (\<exists>acq0 h''. acq = pad_acquired acq0 \<and> x \<in> set acq0 \<and>
                  set acq0 \<subseteq> insert x (set (neighbours h x) - {NIL}) \<and>
                  claimed h sf acq0 h'' \<and> h' = rebalancing_release h'' acq0))"
proof -
  show "(ok \<longrightarrow> (\<exists>acq0. acq = pad_acquired acq0 \<and> claimed h sf acq0 h' \<and> x \<in> set acq0 \<and>
                  set acq0 \<subseteq> insert x (set (neighbours h x) - {NIL}) \<and>
                  set (neighbours h x) - {NIL} \<subseteq> set acq0))"
  proof
    assume ok
    hence st: "state (h x) = sf \<or> state (h x) = Open" using assms by (auto simp: acquire_unfold split: if_splits)
    obtain acq0 where c: "claim_neighbours (h(x := (h x)\<lparr>state := Balancing\<rparr>)) sf [x] (neighbours h x) = (ok, acq0, h')"
      and a: "acq = pad_acquired acq0"
      using assms st by (auto simp: acquire_unfold split: prod.splits)
    from claim_neighbours_char[OF claimed_start[of h x sf, OF st] c] \<open>ok\<close> a
    show "\<exists>acq0. acq = pad_acquired acq0 \<and> claimed h sf acq0 h' \<and> x \<in> set acq0 \<and>
                  set acq0 \<subseteq> insert x (set (neighbours h x) - {NIL}) \<and>
                  set (neighbours h x) - {NIL} \<subseteq> set acq0"
      by (intro exI[of _ acq0]) auto
  qed
  show "(\<not> ok \<longrightarrow> (acq = pad_acquired [] \<and> h' = h) \<or>
            (\<exists>acq0 h''. acq = pad_acquired acq0 \<and> x \<in> set acq0 \<and>
                  set acq0 \<subseteq> insert x (set (neighbours h x) - {NIL}) \<and>
                  claimed h sf acq0 h'' \<and> h' = rebalancing_release h'' acq0))"
  proof
    assume nok: "\<not> ok"
    show "(acq = pad_acquired [] \<and> h' = h) \<or>
            (\<exists>acq0 h''. acq = pad_acquired acq0 \<and> x \<in> set acq0 \<and>
                  set acq0 \<subseteq> insert x (set (neighbours h x) - {NIL}) \<and>
                  claimed h sf acq0 h'' \<and> h' = rebalancing_release h'' acq0)"
    proof (cases "state (h x) = sf \<or> state (h x) = Open")
      case False
      then show ?thesis using assms by (auto simp: acquire_unfold)
    next
      case st: True
      obtain acq0 where c: "claim_neighbours (h(x := (h x)\<lparr>state := Balancing\<rparr>)) sf [x] (neighbours h x) = (ok, acq0, h')"
        and a: "acq = pad_acquired acq0"
        using assms st by (auto simp: acquire_unfold split: prod.splits)
      from claim_neighbours_char[OF claimed_start[of h x sf, OF st] c] nok a
      obtain h'' where "claimed h sf acq0 h''" "h' = rebalancing_release h'' acq0" "x \<in> set acq0"
         "set acq0 \<subseteq> insert x (set (neighbours h x) - {NIL})" by auto
      then show ?thesis using a by blast
    qed
  qed
qed

lemmas acquire_eval = rebalancing_acquire_def Let_def atomic_rebalancing_state_compare_exchange_weak_def
  atomic_compare_exchange_weak_def pad_acquired_def MAX_ACQUIRED_NODES_def node_atomic_set_state_def
  NIL_def nil_node_def

text \<open>
  Claim C5. When an acquisition attempt around a real node \<open>x\<close> fails, every node the
  attempt had claimed (the slots of \<open>acquired\<close> other than \<open>NIL\<close>) is back in state
  \<open>Open\<close> with its other fields as before, and every other node, the sentinel included,
  is untouched: no node stays reserved by the failed attempt.
\<close>

theorem acquire_failure_releases:
  assumes "x \<noteq> NIL" and "rebalancing_acquire h x state_from = (False, acquired, h')"
  shows "\<forall>n. (n \<in> set acquired \<and> n \<noteq> NIL \<longrightarrow> h' n = (h n)\<lparr>state := Open\<rparr>) \<and>
             (n \<notin> set acquired \<or> n = NIL \<longrightarrow> h' n = h n)"
proof -
  from acquire_char(2)[OF assms(2)] consider
    (a) "acquired = pad_acquired []" "h' = h"
    | (b) acq0 h'' where "acquired = pad_acquired acq0" "x \<in> set acq0"
        "set acq0 \<subseteq> insert x (set (neighbours h x) - {NIL})"
        "claimed h state_from acq0 h''" "h' = rebalancing_release h'' acq0"
    by auto
  then show ?thesis
  proof cases
    case a
    then show ?thesis by (auto simp: pad_acquired_def)
  next
    case b
    have nn: "NIL \<notin> set acq0" using b(3) assms(1) by auto
    have mem: "\<And>n. n \<noteq> NIL \<Longrightarrow> n \<in> set acquired \<longleftrightarrow> n \<in> set acq0"
      unfolding b(1) by (auto simp: pad_acquired_def)
    show ?thesis
    proof (intro allI conjI impI)
      fix n assume "n \<in> set acquired \<and> n \<noteq> NIL"
      hence "n \<in> set acq0" "n \<noteq> NIL" using mem by auto
      then show "h' n = (h n)\<lparr>state := Open\<rparr>"
        using b(4) unfolding b(5) claimed_def by (simp add: release_at)
    next
      fix n assume "n \<notin> set acquired \<or> n = NIL"
      hence "n \<notin> set acq0" using mem[of n] nn by (cases "n = NIL") auto
      then show "h' n = h n"
        using b(4) unfolding b(5) claimed_def by (simp add: release_at)
    qed
  qed
qed

theorem acquire_failure_releases_witness:
  "fst (rebalancing_acquire demo_heap 3 Open) = False \<and>
   snd (snd (rebalancing_acquire demo_heap 3 Open)) 3 = (demo_heap 3)\<lparr>state := Open\<rparr> \<and>
   snd (snd (rebalancing_acquire demo_heap 3 Open)) 4 = (demo_heap 4)\<lparr>state := Open\<rparr> \<and>
   snd (snd (rebalancing_acquire demo_heap 3 Open)) 7 = demo_heap 7"
proof -
  have f: "fst (rebalancing_acquire demo_heap 3 Open) = False"
    by (simp add: acquire_eval demo_heap_def)
  have a: "fst (snd (rebalancing_acquire demo_heap 3 Open)) = [3, 5, 2, 4] @ replicate 6 0"
    by (simp add: acquire_eval demo_heap_def)
  have "rebalancing_acquire demo_heap 3 Open =
      (False, fst (snd (rebalancing_acquire demo_heap 3 Open)),
       snd (snd (rebalancing_acquire demo_heap 3 Open)))"
    using f by (metis prod.collapse)
  from acquire_failure_releases[OF _ this] show ?thesis
    using f by (simp add: a NIL_def)
qed

text \<open>
  Claim C6, as stated, fails: \<open>rebalance_on_insert\<close> passes \<open>state_from = Insert\<close>, and
  the claim helper then takes a node from \<open>Insert\<close> to \<open>Balancing\<close>. Node 6 of the
  demonstration store is in state \<open>Insert\<close> and is claimed.
\<close>

theorem acquire_claims_inserting_node:
  "state (demo_heap 6) = Insert \<and> fst (rebalancing_acquire demo_heap 6 Insert) \<and>
   state (snd (snd (rebalancing_acquire demo_heap 6 Insert)) 6) = Balancing"
  by (simp add: acquire_eval demo_heap_def)

text \<open>
  Claim C6, amended. A node whose state is neither \<open>Open\<close> nor the caller's
  \<open>state_from\<close> is left exactly as it was by an acquisition attempt, whatever its
  outcome; and every change a successful attempt makes to a node is the move of its state
  to \<open>Balancing\<close>.
\<close>

theorem acquire_claims_open_or_state_from:
  assumes "rebalancing_acquire h x state_from = (ok, acquired, h')"
  shows "\<forall>n. (state (h n) \<noteq> Open \<and> state (h n) \<noteq> state_from \<longrightarrow> h' n = h n) \<and>
             (ok \<and> h' n \<noteq> h n \<longrightarrow> h' n = (h n)\<lparr>state := Balancing\<rparr>)"
proof (cases ok)
  case True
  from acquire_char(1)[OF assms] True obtain acq0 where "claimed h state_from acq0 h'" by auto
  then show ?thesis unfolding claimed_def by metis
next
  case False
  from acquire_char(2)[OF assms] False consider
    (a) "h' = h"
    | (b) acq0 h'' where "claimed h state_from acq0 h''" "h' = rebalancing_release h'' acq0"
    by auto
  then show ?thesis
  proof cases
    case a
    then show ?thesis by simp
  next
    case b
    show ?thesis using b(1) False unfolding b(2) claimed_def
      by (simp add: release_at) metis
  qed
qed

theorem acquire_claims_open_or_state_from_witness:
  "snd (snd (rebalancing_acquire demo_heap 3 Open)) 7 = demo_heap 7 \<and>
   snd (snd (rebalancing_acquire demo_heap 6 Insert)) 6 = (demo_heap 6)\<lparr>state := Balancing\<rparr>"
proof -
  have s7: "state (demo_heap 7) \<noteq> Open"
    by (simp add: demo_heap_def)
  have ok6: "fst (rebalancing_acquire demo_heap 6 Insert)"
    and ne6: "snd (snd (rebalancing_acquire demo_heap 6 Insert)) 6 \<noteq> demo_heap 6"
    by (simp_all add: acquire_eval demo_heap_def)
  have e3: "rebalancing_acquire demo_heap 3 Open =
      (fst (rebalancing_acquire demo_heap 3 Open),
       fst (snd (rebalancing_acquire demo_heap 3 Open)),
       snd (snd (rebalancing_acquire demo_heap 3 Open)))"
    by simp
  have e6: "rebalancing_acquire demo_heap 6 Insert =
      (fst (rebalancing_acquire demo_heap 6 Insert),
       fst (snd (rebalancing_acquire demo_heap 6 Insert)),
       snd (snd (rebalancing_acquire demo_heap 6 Insert)))"
    by simp
  have a: "snd (snd (rebalancing_acquire demo_heap 3 Open)) 7 = demo_heap 7"
    using acquire_claims_open_or_state_from[OF e3, THEN spec, of 7] s7 by blast
  have b: "snd (snd (rebalancing_acquire demo_heap 6 Insert)) 6 = (demo_heap 6)\<lparr>state := Balancing\<rparr>"
    using acquire_claims_open_or_state_from[OF e6, THEN spec, of 6] ok6 ne6 by blast
  from a b show ?thesis by simp
qed

section \<open>Skew\<close>

text \<open>
  Claim C7. When \<open>x\<close> is a real node at the level of its left child \<open>y\<close> (and \<open>x\<close>,
  \<open>y\<close> and the right child of \<open>y\<close> are different nodes, as in a tree), \<open>skew\<close> returns
  \<open>y\<close>, and the store differs exactly so: the left child of \<open>x\<close> is the former right
  child of \<open>y\<close>, the right child of \<open>y\<close> is \<open>x\<close>, the parent of \<open>y\<close> is the former
  parent of \<open>x\<close>, the parent of \<open>x\<close> is \<open>y\<close>, and the parent of the former right child
  of \<open>y\<close>, when real, is \<open>x\<close>. In every other case \<open>skew\<close> returns \<open>x\<close> and the store
  unchanged.
\<close>

theorem skew_rotates_right:
  "(x \<noteq> NIL \<and> level (h x) = level (h (left (h x))) \<and>
      left (h x) \<noteq> x \<and> right (h (left (h x))) \<noteq> x \<and> right (h (left (h x))) \<noteq> left (h x) \<longrightarrow>
      skew h x =
        ((\<lambda>a. if a = x then (h x)\<lparr>left := right (h (left (h x))), parent := left (h x)\<rparr>
              else if a = left (h x) then (h (left (h x)))\<lparr>right := x, parent := parent (h x)\<rparr>
              else if a = right (h (left (h x))) \<and> a \<noteq> NIL then (h a)\<lparr>parent := x\<rparr>
              else h a),
         left (h x))) \<and>
   (\<not> (x \<noteq> NIL \<and> level (h x) = level (h (left (h x)))) \<longrightarrow> skew h x = (h, x))"
  by (auto simp: skew_def Let_def setters fun_eq_iff)

theorem skew_rotates_right_witness:
  "snd (skew demo_heap 5) = 3 \<and> left (fst (skew demo_heap 5) 5) = 4 \<and>
   right (fst (skew demo_heap 5) 3) = 5 \<and> parent (fst (skew demo_heap 5) 3) = NIL \<and>
   parent (fst (skew demo_heap 5) 5) = 3 \<and> parent (fst (skew demo_heap 5) 4) = 5 \<and>
   skew demo_heap 3 = (demo_heap, 3)"
  using skew_rotates_right[of 5 demo_heap] skew_rotates_right[of 3 demo_heap]
  by (simp add: demo_heap_def NIL_def nil_node_def)

section \<open>From the store to tree values\<close>

lemma is_tree_top: "is_tree h p t \<Longrightarrow> p = top t"
  by (cases t) auto

lemma is_tree_NIL: "is_tree h p t \<Longrightarrow> NIL \<notin> set (nodes t)"
  by (induction t arbitrary: p) auto

lemma is_tree_NIL_iff: "is_tree h NIL t \<longleftrightarrow> t = Leaf"
  by (cases t) auto

lemma is_tree_frame:
  "(\<And>a. a \<in> set (nodes t) \<Longrightarrow> left (h' a) = left (h a) \<and> right (h' a) = right (h a) \<and> level (h' a) = level (h a))
   \<Longrightarrow> is_tree h' p t = is_tree h p t"
  by (induction t arbitrary: p) auto

lemma is_tree_unique: "is_tree h p t \<Longrightarrow> is_tree h p t' \<Longrightarrow> t = t'"
proof (induction t arbitrary: p t')
  case Leaf
  then show ?case by (cases t') auto
next
  case (Node l a lv r)
  then show ?case by (cases t') auto
qed


lemma skew_NIL: "skew h NIL = (h, NIL)"
  by (simp add: skew_def)

lemma split_NIL: "split h NIL = (h, NIL)"
  by (simp add: split_def)

lemma skew_state: "state (fst (skew h x) a) = state (h a)"
  by (simp add: skew_def Let_def setters)

lemma split_state: "state (fst (split h x) a) = state (h a)"
  by (simp add: split_def Let_def setters)

lemma refines_skew: "refines skew skew_t"
  unfolding refines_def
proof (intro allI impI, elim conjE)
  fix h p t A
  assume n: "nilok h" and t: "is_tree h p t" and d: "distinct (nodes t)" and lp: "lvpos t"
    and sub: "set (nodes t) \<subseteq> A" and pc: "pclosed A h"
  show "case skew h p of (h', q) \<Rightarrow>
        is_tree h' q (skew_t t) \<and> (\<forall>a. a \<notin> set (nodes t) \<longrightarrow> h' a = h a) \<and>
        (\<forall>a. state (h' a) = state (h a)) \<and> pclosed A h'"
  proof -
    consider (rot) a y ly b x lx c where "t = Node (Node a y ly b) x lx c"
      | (leaf) "t = Leaf" | (noleft) x lx c where "t = Node Leaf x lx c"
      by (cases t rule: skew_t.cases) auto
    then show ?thesis
    proof cases
    case (rot a y ly b x lx c)
    from t have px: "p = x" and xn: "x \<noteq> NIL" and lx: "level (h x) = lx" and ly: "left (h x) = y"
      and yn: "y \<noteq> NIL" and lvy: "level (h y) = ly"
      and ta: "is_tree h (left (h y)) a" and tb: "is_tree h (right (h y)) b" and tc: "is_tree h (right (h x)) c"
      unfolding rot by auto
    from d have dd: "x \<noteq> y" "x \<notin> set (nodes a)" "x \<notin> set (nodes b)" "x \<notin> set (nodes c)"
      "y \<notin> set (nodes a)" "y \<notin> set (nodes b)" "y \<notin> set (nodes c)" unfolding rot by auto
    have yr: "right (h y) = top b" using tb by (rule is_tree_top)
    have yrx: "right (h y) \<noteq> x" "right (h y) \<noteq> y" using yr dd xn yn by (cases b; auto)+
    have yrA: "right (h y) \<noteq> NIL \<Longrightarrow> right (h y) \<in> set (nodes b)" using yr by (cases b) auto
    show ?thesis
    proof (cases "lx = ly")
      case True
      let ?h' = "(\<lambda>a. if a = x then (h x)\<lparr>left := right (h y), parent := y\<rparr>
              else if a = y then (h y)\<lparr>right := x, parent := parent (h x)\<rparr>
              else if a = right (h y) \<and> a \<noteq> NIL then (h a)\<lparr>parent := x\<rparr>
              else h a)"
      have sk: "skew h x = (?h', y)"
        using xn lx lvy ly True dd(1) yrx by (auto simp: skew_def Let_def setters fun_eq_iff)
      have fa: "is_tree ?h' (left (h y)) a" using ta dd by (subst is_tree_frame[where h=h]) auto
      have fb: "is_tree ?h' (right (h y)) b" using tb dd by (subst is_tree_frame[where h=h]) auto
      have fc: "is_tree ?h' (right (h x)) c" using tc dd by (subst is_tree_frame[where h=h]) auto
      have tr: "is_tree ?h' y (skew_t t)"
        unfolding rot using True fa fb fc xn yn lx lvy dd(1) by simp
      have fr: "\<forall>a. a \<notin> set (nodes t) \<longrightarrow> ?h' a = h a"
        unfolding rot using yrA by auto
      have pcl: "pclosed A ?h'"
        using pc sub unfolding rot pclosed_def by auto
      show ?thesis unfolding px sk using tr fr pcl by simp
    next
      case False
      have "skew h x = (h, x)" using False lx lvy ly by (simp add: skew_def Let_def)
      then show ?thesis unfolding px using t pc False unfolding rot by simp
    qed
  next
    case leaf
    then show ?thesis using t pc by (simp add: skew_NIL)
  next
    case (noleft x lx c)
    from t lp n have "level (h (left (h p))) \<noteq> level (h p)" unfolding noleft by (auto simp: nilok_def)
    hence "skew h p = (h, p)" by (simp add: skew_def Let_def)
    then show ?thesis using t pc unfolding noleft by simp
  qed
  qed
qed


lemma refines_split: "refines split split_t"
  unfolding refines_def
proof (intro allI impI, elim conjE)
  fix h p t A
  assume n: "nilok h" and t: "is_tree h p t" and d: "distinct (nodes t)" and lp: "lvpos t"
    and sub: "set (nodes t) \<subseteq> A" and pc: "pclosed A h"
  show "case split h p of (h', q) \<Rightarrow>
        is_tree h' q (split_t t) \<and> (\<forall>a. a \<notin> set (nodes t) \<longrightarrow> h' a = h a) \<and>
        (\<forall>a. state (h' a) = state (h a)) \<and> pclosed A h'"
  proof -
    consider (rot) a x lx b y ly c z lz d' where "t = Node a x lx (Node b y ly (Node c z lz d'))"
      | (leaf) "t = Leaf" | (noright) a x lx where "t = Node a x lx Leaf"
      | (noright2) a x lx b y ly where "t = Node a x lx (Node b y ly Leaf)"
      by (cases t rule: split_t.cases) auto
    then show ?thesis
    proof cases
    case (rot a x lx b y ly c z lz d')
    from t have px: "p = x" and xn: "x \<noteq> NIL" and lx: "level (h x) = lx" and ry: "right (h x) = y"
      and yn: "y \<noteq> NIL" and lvy: "level (h y) = ly" and rz: "right (h y) = z" and zn: "z \<noteq> NIL"
      and lvz: "level (h z) = lz"
      and ta: "is_tree h (left (h x)) a" and tb: "is_tree h (left (h y)) b"
      and tz: "is_tree h z (Node c z lz d')"
      unfolding rot by auto
    from d have dd: "x \<noteq> y" "x \<noteq> z" "y \<noteq> z" "x \<notin> set (nodes a)" "x \<notin> set (nodes b)"
      "x \<notin> set (nodes c)" "x \<notin> set (nodes d')"
      "y \<notin> set (nodes a)" "y \<notin> set (nodes b)" "y \<notin> set (nodes c)" "y \<notin> set (nodes d')"
      "z \<notin> set (nodes b)" unfolding rot by auto
    have yl: "left (h y) = top b" using tb by (rule is_tree_top)
    have ylx: "left (h y) \<noteq> x" "left (h y) \<noteq> y" "left (h y) \<noteq> z" using yl dd xn yn zn by (cases b; auto)+
    have ylA: "left (h y) \<noteq> NIL \<Longrightarrow> left (h y) \<in> set (nodes b)" using yl by (cases b) auto
    show ?thesis
    proof (cases "lx = lz")
      case True
      let ?h' = "(\<lambda>a. if a = x then (h x)\<lparr>right := left (h y), parent := y\<rparr>
              else if a = y then (h y)\<lparr>left := x, level := ly + 1, parent := parent (h x)\<rparr>
              else if a = left (h y) \<and> a \<noteq> NIL then (h a)\<lparr>parent := x\<rparr>
              else h a)"
      have sk: "split h x = (?h', y)"
        using xn lx lvy ry rz lvz True dd(1) ylx by (auto simp: split_def Let_def setters fun_eq_iff)
      have fa: "is_tree ?h' (left (h x)) a" using ta dd by (subst is_tree_frame[where h=h]) auto
      have fb: "is_tree ?h' (left (h y)) b" using tb dd by (subst is_tree_frame[where h=h]) auto
      have fz: "is_tree ?h' z (Node c z lz d')" using tz dd by (subst is_tree_frame[where h=h]) auto
      have tr: "is_tree ?h' y (split_t t)"
        unfolding rot using True fa fb fz xn yn lx lvy dd(1) rz by simp
      have fr: "\<forall>a. a \<notin> set (nodes t) \<longrightarrow> ?h' a = h a"
        unfolding rot using ylA by auto
      have pcl: "pclosed A ?h'"
        using pc sub unfolding rot pclosed_def by auto
      show ?thesis unfolding px sk using tr fr pcl by simp
    next
      case False
      have "split h x = (h, x)" using False lx lvz ry rz by (simp add: split_def Let_def)
      then show ?thesis unfolding px using t pc False unfolding rot by simp
    qed
  next
    case leaf
    then show ?thesis using t pc by (simp add: split_NIL)
  next
    case (noright a x lx)
    from t lp n have "level (h (right (h (right (h p))))) \<noteq> level (h p)" unfolding noright by (auto simp: nilok_def)
    hence "split h p = (h, p)" by (simp add: split_def Let_def)
    then show ?thesis using t pc unfolding noright by simp
  next
    case (noright2 a x lx b y ly)
    from t lp n have "level (h (right (h (right (h p))))) \<noteq> level (h p)" unfolding noright2 by (auto simp: nilok_def)
    hence "split h p = (h, p)" by (simp add: split_def Let_def)
    then show ?thesis using t pc unfolding noright2 by simp
  qed
  qed
qed

lemma rebalance_on_insert_unfold:
  "rebalance_on_insert fuel h current =
     (case acquire_retry fuel h current Insert of
        Inl e \<Rightarrow> Inl e
      | Inr (acquired, h1) \<Rightarrow>
          Inr (rebalancing_release (fst (fix_insert h1 current)) acquired, snd (fix_insert h1 current)))"
  by (simp add: rebalance_on_insert_def fix_insert_def then_h_def split_beta split: sum.splits)


lemma ws_fields[simp]:
  "left (with_states g h a) = left (h a)" "right (with_states g h a) = right (h a)"
  "parent (with_states g h a) = parent (h a)" "level (with_states g h a) = level (h a)"
  "state (with_states g h a) = g a"
  by (simp_all add: with_states_def)

lemma ws_setters[simp]:
  "node_atomic_set_left (with_states g h) a v = with_states g (node_atomic_set_left h a v)"
  "node_atomic_set_right (with_states g h) a v = with_states g (node_atomic_set_right h a v)"
  "node_atomic_set_parent (with_states g h) a v = with_states g (node_atomic_set_parent h a v)"
  "node_atomic_set_level (with_states g h) a k = with_states g (node_atomic_set_level h a k)"
  by (auto simp: with_states_def setters fun_eq_iff)

lemma ws_ws[simp]: "with_states g (with_states g' h) = with_states g h"
  by (auto simp: with_states_def fun_eq_iff)

lemma ws_id: "(\<And>a. g a = state (h a)) \<Longrightarrow> with_states g h = h"
  by (auto simp: with_states_def fun_eq_iff)

lemma state_blind_skew: "state_blind skew"
  unfolding state_blind_def by (simp add: skew_def Let_def)

lemma state_blind_split: "state_blind split"
  unfolding state_blind_def by (simp add: split_def Let_def)

lemma state_blind_then: "state_blind f \<Longrightarrow> state_blind g \<Longrightarrow> state_blind (then_h f g)"
  unfolding state_blind_def then_h_def by (simp add: split_beta)




lemma state_blind_fix_insert: "state_blind fix_insert"
  unfolding fix_insert_def by (intro state_blind_then state_blind_skew state_blind_split)


lemma nodes_Nil_iff[simp]: "nodes t = [] \<longleftrightarrow> t = Leaf"
  by (cases t) auto

lemma keeps_skew: "keeps skew_t"
  unfolding keeps_def
proof (intro allI conjI impI)
  fix t show "nodes (skew_t t) = nodes t" by simp
  assume "lvpos t" then show "lvpos (skew_t t)" by (cases t rule: skew_t.cases) auto
qed

lemma keeps_split: "keeps split_t"
  unfolding keeps_def
proof (intro allI conjI impI)
  fix t show "nodes (split_t t) = nodes t" by simp
  assume "lvpos t" then show "lvpos (split_t t)" by (cases t rule: split_t.cases) auto
qed



lemma refines_then:
  assumes f: "refines f ft" and g: "refines g gt" and k: "keeps ft"
  shows "refines (then_h f g) (gt \<circ> ft)"
  unfolding refines_def
proof (intro allI impI, elim conjE)
  fix h p t A
  assume n: "nilok h" and t: "is_tree h p t" and d: "distinct (nodes t)" and lp: "lvpos t"
    and sub: "set (nodes t) \<subseteq> A" and pc: "pclosed A h"
  obtain h1 q1 where f1: "f h p = (h1, q1)" by (cases "f h p")
  from f[unfolded refines_def, rule_format, of h p t A] n t d lp sub pc f1
  have t1: "is_tree h1 q1 (ft t)" and fr1: "\<forall>a. a \<notin> set (nodes t) \<longrightarrow> h1 a = h a"
    and st1: "\<forall>a. state (h1 a) = state (h a)" and pc1: "pclosed A h1" by auto
  have n1: "nilok h1" using n fr1 is_tree_NIL[OF t] by (simp add: nilok_def)
  have kk: "nodes (ft t) = nodes t" "lvpos (ft t)" using k lp by (auto simp: keeps_def)
  obtain h2 q2 where g2: "g h1 q1 = (h2, q2)" by (cases "g h1 q1")
  from g[unfolded refines_def, rule_format, of h1 q1 "ft t" A] n1 t1 d lp sub pc1 g2 kk
  have "is_tree h2 q2 (gt (ft t))" "\<forall>a. a \<notin> set (nodes t) \<longrightarrow> h2 a = h1 a"
    "\<forall>a. state (h2 a) = state (h1 a)" "pclosed A h2" by auto
  then show "case then_h f g h p of (h', q) \<Rightarrow>
        is_tree h' q ((gt \<circ> ft) t) \<and> (\<forall>a. a \<notin> set (nodes t) \<longrightarrow> h' a = h a) \<and>
        (\<forall>a. state (h' a) = state (h a)) \<and> pclosed A h'"
    using fr1 st1 by (simp add: then_h_def f1 g2)
qed







lemma refines_fix_insert: "refines fix_insert (split_t \<circ> skew_t)"
  unfolding fix_insert_def by (intro refines_then refines_skew refines_split keeps_skew)



lemma claim_neighbours_ok:
  "claimed h0 sf acq h \<Longrightarrow>
   (\<forall>n \<in> set ns. n \<noteq> NIL \<longrightarrow> n \<notin> set acq \<longrightarrow> state (h0 n) = sf \<or> state (h0 n) = Open) \<Longrightarrow>
   fst (claim_neighbours h sf acq ns)"
proof (induction ns arbitrary: h acq)
  case Nil
  then show ?case by simp
next
  case (Cons n ns)
  show ?case
  proof (cases "n \<noteq> NIL \<and> n \<notin> set acq")
    case False
    then show ?thesis using Cons.IH[OF Cons.prems(1)] Cons.prems(2) by auto
  next
    case True
    hence hn: "h n = h0 n" using Cons.prems(1) by (simp add: claimed_def)
    have st: "state (h n) = sf \<or> state (h n) = Open" using Cons.prems(2) True hn by simp
    let ?h1 = "h(n := (h n)\<lparr>state := Balancing\<rparr>)"
    have c1: "claimed h0 sf (acq @ [n]) ?h1"
      using Cons.prems(1) True st hn unfolding claimed_def by (auto split: if_splits)
    have "fst (claim_neighbours ?h1 sf (acq @ [n]) ns)"
      using Cons.prems(2) by (intro Cons.IH[OF c1]) auto
    then show ?thesis using True st by (simp add: cas_cases)
  qed
qed

lemma acquire_ok:
  assumes "state (h x) = sf \<or> state (h x) = Open"
    and "\<forall>n \<in> set (neighbours h x). n \<noteq> NIL \<longrightarrow> n \<noteq> x \<longrightarrow> state (h n) = Open"
  shows "\<exists>acq0 h1. rebalancing_acquire h x sf = (True, pad_acquired acq0, h1) \<and>
           claimed h sf acq0 h1 \<and> x \<in> set acq0 \<and>
           set acq0 \<subseteq> insert x (set (neighbours h x) - {NIL})"
proof -
  have "fst (claim_neighbours (h(x := (h x)\<lparr>state := Balancing\<rparr>)) sf [x] (neighbours h x))"
    using assms(2) by (intro claim_neighbours_ok[OF claimed_start[of h x sf, OF assms(1)]]) auto
  hence "fst (rebalancing_acquire h x sf)"
    using assms(1) by (auto simp: acquire_unfold split_beta)
  then obtain acq h1 where a: "rebalancing_acquire h x sf = (True, acq, h1)"
    by (cases "rebalancing_acquire h x sf") auto
  from acquire_char(1)[OF a] show ?thesis using a by auto
qed

lemma state_blind_states: "state_blind f \<Longrightarrow> state (fst (f h x) a) = state (h a)"
proof -
  assume sb: "state_blind f"
  have "with_states (\<lambda>a. state (h a)) h = h" by (rule ws_id) simp
  with sb[unfolded state_blind_def, rule_format, of "\<lambda>a. state (h a)" h x]
  have "fst (f h x) = with_states (\<lambda>a. state (h a)) (fst (f h x))" by (metis fst_conv)
  then show ?thesis by (metis ws_fields(5))
qed

lemma claimed_ws: "claimed h sf acq h1 \<Longrightarrow>
    h1 = with_states (\<lambda>a. if a \<in> set acq then Balancing else state (h a)) h"
  unfolding claimed_def with_states_def by (rule ext) (auto split: if_splits)

lemma rebalance_exact:
  assumes sb: "state_blind f" and xn: "x \<noteq> NIL"
    and a: "rebalancing_acquire h x sf = (True, pad_acquired acq0, h1)"
    and c: "claimed h sf acq0 h1" and xa: "x \<in> set acq0"
    and sub: "set acq0 \<subseteq> insert x (set (neighbours h x) - {NIL})"
    and op: "\<forall>n \<in> set (neighbours h x). n \<noteq> NIL \<longrightarrow> n \<noteq> x \<longrightarrow> state (h n) = Open"
  shows "rebalancing_release (fst (f h1 x)) (pad_acquired acq0) = node_atomic_set_state (fst (f h x)) x Open"
    and "snd (f h1 x) = snd (f h x)"
proof -
  let ?g = "\<lambda>a. if a \<in> set acq0 then Balancing else state (h a)"
  have h1: "h1 = with_states ?g h" using c by (rule claimed_ws)
  have f1: "f h1 x = (with_states ?g (fst (f h x)), snd (f h x))"
    unfolding h1 using sb by (simp add: state_blind_def)
  show "snd (f h1 x) = snd (f h x)" using f1 by simp
  have nn: "NIL \<notin> set acq0" using sub xn by auto
  show "rebalancing_release (fst (f h1 x)) (pad_acquired acq0) = node_atomic_set_state (fst (f h x)) x Open"
  proof (rule ext)
    fix n
    have st: "state (fst (f h x) n) = state (h n)" using sb by (rule state_blind_states)
    show "rebalancing_release (fst (f h1 x)) (pad_acquired acq0) n = node_atomic_set_state (fst (f h x)) x Open n"
    proof (cases "n \<in> set acq0")
      case True
      hence "n \<noteq> NIL" using nn by auto
      have "n \<noteq> x \<Longrightarrow> state (h n) = Open" using True sub op by auto
      then show ?thesis using True \<open>n \<noteq> NIL\<close> st
        by (auto simp: release_pad release_at f1 with_states_def setters)
    next
      case False
      hence "n \<noteq> x" using xa by auto
      then show ?thesis using False st
        by (auto simp: release_pad release_at f1 with_states_def setters)
    qed
  qed
qed

lemma rebalance_on_insert_exact:
  assumes "x \<noteq> NIL" "state (h x) = Insert \<or> state (h x) = Open"
    and "\<forall>n \<in> set (neighbours h x). n \<noteq> NIL \<longrightarrow> n \<noteq> x \<longrightarrow> state (h n) = Open"
  shows "rebalance_on_insert (Suc fuel) h x =
           Inr (node_atomic_set_state (fst (fix_insert h x)) x Open, snd (fix_insert h x))"
proof -
  from acquire_ok[OF assms(2,3)] obtain acq0 h1 where
    a: "rebalancing_acquire h x Insert = (True, pad_acquired acq0, h1)"
    and c: "claimed h Insert acq0 h1" and xa: "x \<in> set acq0"
    and sub: "set acq0 \<subseteq> insert x (set (neighbours h x) - {NIL})" by blast
  note e = rebalance_exact[OF state_blind_fix_insert assms(1) a c xa sub assms(3)]
  show ?thesis by (simp add: rebalance_on_insert_unfold a e)
qed



lemma neighbours_in:
  assumes n: "nilok h" and t: "is_tree h x t" and sub: "set (nodes t) \<subseteq> A" and pc: "pclosed A h"
    and xn: "x \<noteq> NIL"
  shows "set (neighbours h x) \<subseteq> insert NIL A"
proof -
  obtain l lv r where tt: "t = Node l x lv r" using t xn by (cases t) auto
  from t have tl: "is_tree h (left (h x)) l" and tr: "is_tree h (right (h x)) r" unfolding tt by auto
  have xa: "x \<in> A" using sub unfolding tt by simp
  have p1: "parent (h x) \<in> insert NIL A" using pc xa by (simp add: pclosed_def)
  have p2: "parent (h (parent (h x))) \<in> insert NIL A"
    using pc p1 n by (cases "parent (h x) = NIL") (auto simp: pclosed_def nilok_def)
  have kids: "\<And>p u. is_tree h p u \<Longrightarrow> set (nodes u) \<subseteq> A \<Longrightarrow>
      p \<in> insert NIL A \<and> left (h p) \<in> insert NIL A \<and> right (h p) \<in> insert NIL A"
  proof -
    fix p u assume u: "is_tree h p u" and ua: "set (nodes u) \<subseteq> A"
    show "p \<in> insert NIL A \<and> left (h p) \<in> insert NIL A \<and> right (h p) \<in> insert NIL A"
    proof (cases u)
      case Leaf
      then show ?thesis using u n by (simp add: nilok_def)
    next
      case (Node ul b k ur)
      from u have "is_tree h (left (h p)) ul" "is_tree h (right (h p)) ur" "p = b" unfolding Node by auto
      then show ?thesis using ua is_tree_top[of h "left (h p)" ul] is_tree_top[of h "right (h p)" ur]
        unfolding Node by (cases ul; cases ur) auto
    qed
  qed
  from kids[OF tl] kids[OF tr] sub p1 p2 show ?thesis
    unfolding tt by (auto simp: neighbours_def)
qed

lemma lvpos_insert_t: "lvpos t \<Longrightarrow> lvpos (insert_t cmp v n t)"
proof (induction t)
  case Leaf
  then show ?case by simp
next
  case (Node l a lv r)
  have k: "\<And>u. lvpos u \<Longrightarrow> lvpos (split_t (skew_t u))"
    using keeps_skew keeps_split by (simp add: keeps_def)
  show ?case using Node by (auto intro!: k)
qed

lemma nodes_insert_t_sets:
  "set (nodes t) \<subseteq> set (nodes (insert_t cmp v n t)) \<and>
   set (nodes (insert_t cmp v n t)) \<subseteq> insert n (set (nodes t)) \<and>
   (n \<notin> set (nodes t) \<longrightarrow> distinct (nodes t) \<longrightarrow> distinct (nodes (insert_t cmp v n t)))"
  by (induction t) auto

lemma insert_sub_Leaf:
  assumes "node \<noteq> NIL" "state (h node) = Open" "prev \<noteq> NIL \<longrightarrow> state (h prev) = Open" "prev \<noteq> node"
  shows "insert_sub (Suc f) tree h NIL prev v node =
     Inr (node, tree\<lparr>count := count tree + 1\<rparr>,
          (\<lambda>a. if a = node then \<lparr>left = NIL, right = NIL, parent = NIL, level = 1, state = Open\<rparr>
                else if a = prev \<and> prev \<noteq> NIL then (h a)\<lparr>state := Insert\<rparr> else h a))"
proof -
  have "(h node)\<lparr>parent := NIL, left := NIL, right := NIL, level := 1\<rparr> =
        \<lparr>left = NIL, right = NIL, parent = NIL, level = 1, state = Open\<rparr>"
    using assms(2) by (cases "h node") simp
  then show ?thesis using assms
    by (auto simp: atomic_compare_exchange_weak_def setters fun_eq_iff Let_def)
qed

lemma insert_sub_right:
  assumes "cur \<noteq> NIL" "node_cmp tree v cur > 0" "right (h cur) \<noteq> cur"
    "insert_sub f tree h (right (h cur)) cur v node = Inr (tmp, tree', h1)" "tmp \<noteq> NIL"
  shows "insert_sub (Suc f) tree h cur prev v node =
     (case rebalance_on_insert (Suc f)
             (if tmp \<noteq> right (h cur)
              then node_atomic_set_parent (node_atomic_set_right h1 cur tmp) tmp cur else h1) cur of
        Inl e \<Rightarrow> Inl e
      | Inr (h3, q) \<Rightarrow> Inr (q, tree', h3))"
  using assms by (simp add: Let_def)

lemma insert_sub_left:
  assumes "cur \<noteq> NIL" "\<not> node_cmp tree v cur > 0" "node_cmp tree v cur < 0" "left (h cur) \<noteq> cur"
    "insert_sub f tree h (left (h cur)) cur v node = Inr (tmp, tree', h1)" "tmp \<noteq> NIL"
  shows "insert_sub (Suc f) tree h cur prev v node =
     (case rebalance_on_insert (Suc f)
             (if tmp \<noteq> left (h cur)
              then node_atomic_set_parent (node_atomic_set_left h1 cur tmp) tmp cur else h1) cur of
        Inl e \<Rightarrow> Inl e
      | Inr (h3, q) \<Rightarrow> Inr (q, tree', h3))"
  using assms by (simp add: Let_def)

lemma insert_sub_found:
  assumes "cur \<noteq> NIL" "\<not> node_cmp tree v cur > 0" "\<not> node_cmp tree v cur < 0"
  shows "insert_sub (Suc f) tree h cur prev v node = Inr (cur, tree, h)"
  using assms by (simp add: Let_def)

lemma insert_fix_step:
  assumes n: "nilok h" and t: "is_tree h a u" and an: "a \<noteq> NIL" and d: "distinct (nodes u)"
    and lp: "lvpos u" and sub: "set (nodes u) \<subseteq> B" and pc: "pclosed B h" and nb: "NIL \<notin> B"
    and op: "\<forall>x \<in> B. x \<noteq> a \<longrightarrow> state (h x) = Open"
    and sa: "state (h a) = Insert \<or> state (h a) = Open"
  shows "\<exists>H q. rebalance_on_insert (Suc f) h a = Inr (H, q) \<and> q = top (split_t (skew_t u)) \<and>
           is_tree H q (split_t (skew_t u)) \<and>
           (\<forall>x. x \<notin> set (nodes u) \<longrightarrow> H x = h x) \<and>
           (\<forall>x. x \<noteq> a \<longrightarrow> state (H x) = state (h x)) \<and> state (H a) = Open \<and>
           pclosed B H"
proof -
  have nbr: "\<forall>x \<in> set (neighbours h a). x \<noteq> NIL \<longrightarrow> x \<noteq> a \<longrightarrow> state (h x) = Open"
    using neighbours_in[OF n t sub pc an] op by auto
  note ex = rebalance_on_insert_exact[OF an sa nbr, of f]
  obtain H0 q where fx: "fix_insert h a = (H0, q)" by (cases "fix_insert h a")
  from refines_fix_insert[unfolded refines_def, rule_format, of h a u B] n t d lp sub pc fx
  have t': "is_tree H0 q (split_t (skew_t u))" and fr: "\<forall>x. x \<notin> set (nodes u) \<longrightarrow> H0 x = h x"
    and st: "\<forall>x. state (H0 x) = state (h x)" and pc': "pclosed B H0" by auto
  let ?H = "node_atomic_set_state H0 a Open"
  have "a \<in> set (nodes u)" using t an by (cases u) auto
  hence "\<forall>x. x \<notin> set (nodes u) \<longrightarrow> ?H x = h x" using fr by (auto simp: setters)
  moreover have "is_tree ?H q (split_t (skew_t u))"
    using t' by (subst is_tree_frame[where h=H0]) (auto simp: setters)
  moreover have "pclosed B ?H" using pc' by (auto simp: pclosed_def setters)
  moreover have "\<forall>x. x \<noteq> a \<longrightarrow> state (?H x) = state (h x)" using st by (auto simp: setters)
  moreover have "state (?H a) = Open" by (simp add: setters)
  moreover have "q = top (split_t (skew_t u))" using t' by (rule is_tree_top)
  ultimately show ?thesis using ex fx by simp
qed

lemma insert_sub_ok:
  assumes "nilok h" "is_tree h cur t" "distinct (nodes t)" "lvpos t" "set (nodes t) \<subseteq> A"
    "pclosed A h" "NIL \<notin> A" "\<forall>a\<in>A. state (h a) = Open" "prev \<in> insert NIL A"
    "prev \<notin> set (nodes t)" "node \<notin> A" "node \<noteq> NIL" "state (h node) = Open" "height_t t < fuel"
  shows "\<exists>res. insert_sub fuel tree h cur prev v node = Inr res \<and>
           ins_post A h t prev node tree (insert_t (node_cmp tree) v node t) res"
  using assms
proof (induction t arbitrary: h cur prev fuel)
  case Leaf
  then obtain f where fuel: "fuel = Suc f" by (cases fuel) auto
  from Leaf have cn: "cur = NIL" by simp
  have pn: "prev \<noteq> node" using Leaf.prems(9,11,12) by auto
  have po: "prev \<noteq> NIL \<longrightarrow> state (h prev) = Open" using Leaf.prems(8,9) by auto
  note e = insert_sub_Leaf[OF Leaf.prems(12,13) po pn, of f tree v]
  show ?case unfolding fuel cn e using Leaf.prems(6,7,8,9,11,12) pn
    by (auto simp: ins_post_def pclosed_def)
next
  case (Node l a lv r)
  then obtain f where fuel: "fuel = Suc f" by (cases fuel) auto
  note n = Node.prems(1) and d = Node.prems(3) and lp = Node.prems(4) and sub = Node.prems(5)
    and pc = Node.prems(6) and nA = Node.prems(7) and op = Node.prems(8) and nodeA = Node.prems(11)
    and nodeN = Node.prems(12) and nodeO = Node.prems(13)
  from Node.prems(2) have ca: "cur = a" and an: "a \<noteq> NIL" and la: "level (h a) = lv"
    and tl: "is_tree h (left (h a)) l" and tr: "is_tree h (right (h a)) r" by auto
  from d have dd: "a \<notin> set (nodes l)" "a \<notin> set (nodes r)" "set (nodes l) \<inter> set (nodes r) = {}"
    "distinct (nodes r)" "distinct (nodes l)" by auto
  from lp have lpl: "lvpos l" and lpr: "lvpos r" and lv1: "1 \<le> lv" by auto
  from sub have aA: "a \<in> A" and subl: "set (nodes l) \<subseteq> A" and subr: "set (nodes r) \<subseteq> A" by auto
  have hf: "height_t l < f" "height_t r < f" using Node.prems(14) fuel by auto
  have nodet: "node \<noteq> a" "node \<notin> set (nodes l)" "node \<notin> set (nodes r)" using nodeA sub by auto
  let ?cmp = "node_cmp tree"
  consider (R) "?cmp v a > 0" | (L) "\<not> ?cmp v a > 0" "?cmp v a < 0" | (E) "\<not> ?cmp v a > 0" "\<not> ?cmp v a < 0"
    by linarith
  then show ?case
  proof cases
    case E
    have teq: "insert_t ?cmp v node (Node l a lv r) = Node l a lv r" using E by simp
    have tt: "tree\<lparr>count := count tree\<rparr> = tree" by simp
    have AA: "A \<union> set (nodes (Node l a lv r)) = A" using sub by auto
    have nn: "node \<notin> set (nodes (Node l a lv r))" using nodet by simp
    have "ins_post A h (Node l a lv r) prev node tree (Node l a lv r) (a, tree, h)"
      unfolding ins_post_def prod.case AA using Node.prems(2) op nodeO pc nn ca tt
      by (simp del: nodes.simps is_tree.simps)
    then show ?thesis unfolding fuel ca insert_sub_found[OF an E] teq by blast
  next
    case R
    let ?r' = "insert_t ?cmp v node r"
    let ?u = "Node l a lv ?r'"
    have rne: "right (h a) \<noteq> a" using is_tree_top[OF tr] dd(2) an by (cases r) auto
    from Node.IH(2)[OF n tr dd(4) lpr subr pc nA op _ dd(2) nodeA nodeN nodeO hf(2)] aA
    obtain tmp tree1 h1 where rec: "insert_sub f tree h (right (h a)) a v node = Inr (tmp, tree1, h1)"
      and post: "ins_post A h r a node tree ?r' (tmp, tree1, h1)" by auto
    from post have tmp: "tmp = top ?r'"
      and tree1: "tree1 = tree\<lparr>count := count tree + (if node \<in> set (nodes ?r') then 1 else 0)\<rparr>"
      and t1: "is_tree h1 tmp ?r'"
      and fr1: "\<forall>x. x \<notin> set (nodes r) \<longrightarrow> x \<noteq> node \<longrightarrow>
             h1 x = (if r = Leaf \<and> x = a \<and> a \<noteq> NIL then (h x)\<lparr>state := Insert\<rparr> else h x)"
      and keep1: "node \<notin> set (nodes ?r') \<longrightarrow> h1 node = h node"
      and st1: "\<forall>x \<in> insert node A. state (h1 x) = (if r = Leaf \<and> x = a \<and> a \<noteq> NIL then Insert else Open)"
      and pc1: "pclosed (A \<union> set (nodes ?r')) h1"
      by (auto simp: ins_post_def)
    have tmpn: "tmp \<noteq> NIL" using t1 by (cases ?r') auto
    note ns = nodes_insert_t_sets[of r ?cmp v node]
    have r'sub: "set (nodes ?r') \<subseteq> insert node (set (nodes r))" using ns by simp
    have dr': "distinct (nodes ?r')" using ns nodet dd(4) by simp
    have tmpin: "tmp \<in> set (nodes ?r')" using tmp by (cases ?r') auto
    have tmpa: "tmp \<noteq> a" using tmpin r'sub dd(2) nodet by auto
    let ?B = "A \<union> set (nodes ?u)"
    have Beq: "?B = A \<union> set (nodes ?r')" using subl aA by auto
    let ?h2 = "if tmp \<noteq> right (h a)
              then node_atomic_set_parent (node_atomic_set_right h1 a tmp) tmp a else h1"
    have h1a: "left (h1 a) = left (h a)" "right (h1 a) = right (h a)" "level (h1 a) = lv"
      using fr1 dd(2) nodet la by auto
    have shape2: "\<And>x. x \<noteq> a \<Longrightarrow> left (?h2 x) = left (h1 x) \<and> right (?h2 x) = right (h1 x) \<and> level (?h2 x) = level (h1 x)"
      by (auto simp: setters)
    have a2: "left (?h2 a) = left (h a)" "right (?h2 a) = tmp" "level (?h2 a) = lv"
      using h1a tmpa by (auto simp: setters)
    have tl2: "is_tree ?h2 (left (h a)) l"
    proof -
      have "\<And>x. x \<in> set (nodes l) \<Longrightarrow> left (?h2 x) = left (h x) \<and> right (?h2 x) = right (h x) \<and> level (?h2 x) = level (h x)"
      proof -
        fix x assume x: "x \<in> set (nodes l)"
        hence xa: "x \<noteq> a" "x \<notin> set (nodes r)" "x \<noteq> node" using dd nodet by auto
        hence "h1 x = h x" using fr1 by auto
        then show "left (?h2 x) = left (h x) \<and> right (?h2 x) = right (h x) \<and> level (?h2 x) = level (h x)"
          using shape2[OF xa(1)] by simp
      qed
      then show ?thesis using tl by (subst is_tree_frame[where h=h]) auto
    qed
    have tr2: "is_tree ?h2 tmp ?r'"
    proof -
      have "\<And>x. x \<in> set (nodes ?r') \<Longrightarrow> x \<noteq> a" using r'sub dd(2) nodet by auto
      then show ?thesis using t1 shape2 by (subst is_tree_frame[where h=h1]) auto
    qed
    have t2: "is_tree ?h2 a ?u" using tl2 tr2 a2 an by simp
    have n2: "nilok ?h2"
    proof -
      have "NIL \<notin> set (nodes r)" using subr nA by auto
      hence "h1 NIL = h NIL" using fr1 nodeN an by auto
      then show ?thesis using n an tmpn by (auto simp: nilok_def setters)
    qed
    have d2: "distinct (nodes ?u)" using dd dr' r'sub nodet by auto
    have lp2: "lvpos ?u" using lpl lv1 lvpos_insert_t[OF lpr] by simp
    have pc2: "pclosed ?B ?h2"
      unfolding Beq using pc1 aA by (auto simp: pclosed_def setters)
    have nB: "NIL \<notin> ?B" using nA r'sub nodeN subl an
      by (metis Beq Un_iff insert_iff subr subsetD)
    have Bsub: "?B \<subseteq> insert node A" unfolding Beq using r'sub subr by auto
    have st2: "\<And>x. state (?h2 x) = state (h1 x)" by (auto simp: setters)
    have op2: "\<forall>x \<in> ?B. x \<noteq> a \<longrightarrow> state (?h2 x) = Open"
      using st1 Bsub st2 by auto
    have sa2: "state (?h2 a) = Insert \<or> state (?h2 a) = Open"
      using st1 aA st2 by auto
    from insert_fix_step[OF n2 t2 an d2 lp2 _ pc2 nB op2 sa2, of f]
    obtain H q where reb: "rebalance_on_insert (Suc f) ?h2 a = Inr (H, q)"
      and q: "q = top (split_t (skew_t ?u))"
      and tH: "is_tree H q (split_t (skew_t ?u))"
      and frH: "\<forall>x. x \<notin> set (nodes ?u) \<longrightarrow> H x = ?h2 x"
      and stH: "\<forall>x. x \<noteq> a \<longrightarrow> state (H x) = state (?h2 x)" and saH: "state (H a) = Open"
      and pcH: "pclosed ?B H" by auto
    let ?t' = "insert_t ?cmp v node (Node l a lv r)"
    have t'eq: "?t' = split_t (skew_t ?u)" using R by simp
    have nt': "set (nodes ?t') = set (nodes ?u)" unfolding t'eq by simp
    have res: "insert_sub (Suc f) tree h a prev v node = Inr (q, tree1, H)"
      using insert_sub_right[OF an R rne rec tmpn, of prev] reb by simp
    have c1: "tree1 = tree\<lparr>count := count tree + (if node \<in> set (nodes ?t') then 1 else 0)\<rparr>"
      unfolding tree1 nt' using nodet by simp
    have c2: "\<forall>x. x \<notin> set (nodes (Node l a lv r)) \<longrightarrow> x \<noteq> node \<longrightarrow> H x = h x"
    proof (intro allI impI)
      fix x assume x: "x \<notin> set (nodes (Node l a lv r))" "x \<noteq> node"
      hence xx: "x \<noteq> a" "x \<notin> set (nodes r)" "x \<notin> set (nodes l)" by auto
      hence "x \<notin> set (nodes ?u)" using r'sub x(2) by auto
      hence "H x = ?h2 x" using frH by simp
      moreover have "x \<noteq> tmp" using tmpin r'sub xx x(2) by auto
      hence "?h2 x = h1 x" using xx by (auto simp: setters)
      moreover have "h1 x = h x" using fr1 xx x(2) by auto
      ultimately show "H x = h x" by simp
    qed
    have c3: "node \<notin> set (nodes ?t') \<longrightarrow> H node = h node"
    proof
      assume "node \<notin> set (nodes ?t')"
      hence nn: "node \<notin> set (nodes ?u)" "node \<notin> set (nodes ?r')" unfolding nt' by auto
      hence "H node = ?h2 node" using frH by simp
      moreover have "node \<noteq> tmp" using tmpin nn by auto
      hence "?h2 node = h1 node" using nodet by (auto simp: setters)
      ultimately show "H node = h node" using keep1 nn by simp
    qed
    have c4: "\<forall>x \<in> insert node A. state (H x) = Open"
    proof
      fix x assume x: "x \<in> insert node A"
      show "state (H x) = Open"
      proof (cases "x = a")
        case True
        then show ?thesis using saH by simp
      next
        case False
        then show ?thesis using stH st2 st1 x by auto
      qed
    qed
    have c5: "pclosed (A \<union> set (nodes ?t')) H" unfolding nt' using pcH by simp
    show ?thesis unfolding fuel ca
      apply (rule exI[of _ "(q, tree1, H)"])
      using res c1 c2 c3 c4 c5 tH q unfolding t'eq[symmetric]
      by (simp add: ins_post_def)
  next
    case L
    let ?l' = "insert_t ?cmp v node l"
    let ?u = "Node ?l' a lv r"
    have rne: "left (h a) \<noteq> a" using is_tree_top[OF tl] dd(1) an by (cases l) auto
    from Node.IH(1)[OF n tl dd(5) lpl subl pc nA op _ dd(1) nodeA nodeN nodeO hf(1)] aA
    obtain tmp tree1 h1 where rec: "insert_sub f tree h (left (h a)) a v node = Inr (tmp, tree1, h1)"
      and post: "ins_post A h l a node tree ?l' (tmp, tree1, h1)" by auto
    from post have tmp: "tmp = top ?l'"
      and tree1: "tree1 = tree\<lparr>count := count tree + (if node \<in> set (nodes ?l') then 1 else 0)\<rparr>"
      and t1: "is_tree h1 tmp ?l'"
      and fr1: "\<forall>x. x \<notin> set (nodes l) \<longrightarrow> x \<noteq> node \<longrightarrow>
             h1 x = (if l = Leaf \<and> x = a \<and> a \<noteq> NIL then (h x)\<lparr>state := Insert\<rparr> else h x)"
      and keep1: "node \<notin> set (nodes ?l') \<longrightarrow> h1 node = h node"
      and st1: "\<forall>x \<in> insert node A. state (h1 x) = (if l = Leaf \<and> x = a \<and> a \<noteq> NIL then Insert else Open)"
      and pc1: "pclosed (A \<union> set (nodes ?l')) h1"
      by (auto simp: ins_post_def)
    have tmpn: "tmp \<noteq> NIL" using t1 by (cases ?l') auto
    note ns = nodes_insert_t_sets[of l ?cmp v node]
    have r'sub: "set (nodes ?l') \<subseteq> insert node (set (nodes l))" using ns by simp
    have dr': "distinct (nodes ?l')" using ns nodet dd(5) by simp
    have tmpin: "tmp \<in> set (nodes ?l')" using tmp by (cases ?l') auto
    have tmpa: "tmp \<noteq> a" using tmpin r'sub dd(1) nodet by auto
    let ?B = "A \<union> set (nodes ?u)"
    have Beq: "?B = A \<union> set (nodes ?l')" using subr aA by auto
    let ?h2 = "if tmp \<noteq> left (h a)
              then node_atomic_set_parent (node_atomic_set_left h1 a tmp) tmp a else h1"
    have h1a: "left (h1 a) = left (h a)" "right (h1 a) = right (h a)" "level (h1 a) = lv"
      using fr1 dd(1) nodet la by auto
    have shape2: "\<And>x. x \<noteq> a \<Longrightarrow> left (?h2 x) = left (h1 x) \<and> right (?h2 x) = right (h1 x) \<and> level (?h2 x) = level (h1 x)"
      by (auto simp: setters)
    have a2: "left (?h2 a) = tmp" "right (?h2 a) = right (h a)" "level (?h2 a) = lv"
      using h1a tmpa by (auto simp: setters)
    have tl2: "is_tree ?h2 (right (h a)) r"
    proof -
      have "\<And>x. x \<in> set (nodes r) \<Longrightarrow> left (?h2 x) = left (h x) \<and> right (?h2 x) = right (h x) \<and> level (?h2 x) = level (h x)"
      proof -
        fix x assume x: "x \<in> set (nodes r)"
        hence xa: "x \<noteq> a" "x \<notin> set (nodes l)" "x \<noteq> node" using dd nodet by auto
        hence "h1 x = h x" using fr1 by auto
        then show "left (?h2 x) = left (h x) \<and> right (?h2 x) = right (h x) \<and> level (?h2 x) = level (h x)"
          using shape2[OF xa(1)] by simp
      qed
      then show ?thesis using tr by (subst is_tree_frame[where h=h]) auto
    qed
    have tr2: "is_tree ?h2 tmp ?l'"
    proof -
      have "\<And>x. x \<in> set (nodes ?l') \<Longrightarrow> x \<noteq> a" using r'sub dd(1) nodet by auto
      then show ?thesis using t1 shape2 by (subst is_tree_frame[where h=h1]) auto
    qed
    have t2: "is_tree ?h2 a ?u" using tl2 tr2 a2 an by simp
    have n2: "nilok ?h2"
    proof -
      have "NIL \<notin> set (nodes l)" using subl nA by auto
      hence "h1 NIL = h NIL" using fr1 nodeN an by auto
      then show ?thesis using n an tmpn by (auto simp: nilok_def setters)
    qed
    have d2: "distinct (nodes ?u)" using dd dr' r'sub nodet by auto
    have lp2: "lvpos ?u" using lpr lv1 lvpos_insert_t[OF lpl] by simp
    have pc2: "pclosed ?B ?h2"
      unfolding Beq using pc1 aA by (auto simp: pclosed_def setters)
    have nB: "NIL \<notin> ?B" using nA r'sub nodeN subr an
      by (metis Beq Un_iff insert_iff subl subsetD)
    have Bsub: "?B \<subseteq> insert node A" unfolding Beq using r'sub subl by auto
    have st2: "\<And>x. state (?h2 x) = state (h1 x)" by (auto simp: setters)
    have op2: "\<forall>x \<in> ?B. x \<noteq> a \<longrightarrow> state (?h2 x) = Open"
      using st1 Bsub st2 by auto
    have sa2: "state (?h2 a) = Insert \<or> state (?h2 a) = Open"
      using st1 aA st2 by auto
    from insert_fix_step[OF n2 t2 an d2 lp2 _ pc2 nB op2 sa2, of f]
    obtain H q where reb: "rebalance_on_insert (Suc f) ?h2 a = Inr (H, q)"
      and q: "q = top (split_t (skew_t ?u))"
      and tH: "is_tree H q (split_t (skew_t ?u))"
      and frH: "\<forall>x. x \<notin> set (nodes ?u) \<longrightarrow> H x = ?h2 x"
      and stH: "\<forall>x. x \<noteq> a \<longrightarrow> state (H x) = state (?h2 x)" and saH: "state (H a) = Open"
      and pcH: "pclosed ?B H" by auto
    let ?t' = "insert_t ?cmp v node (Node l a lv r)"
    have t'eq: "?t' = split_t (skew_t ?u)" using L by simp
    have nt': "set (nodes ?t') = set (nodes ?u)" unfolding t'eq by simp
    have res: "insert_sub (Suc f) tree h a prev v node = Inr (q, tree1, H)"
      using insert_sub_left[OF an L rne rec tmpn, of prev] reb by simp
    have c1: "tree1 = tree\<lparr>count := count tree + (if node \<in> set (nodes ?t') then 1 else 0)\<rparr>"
      unfolding tree1 nt' using nodet by simp
    have c2: "\<forall>x. x \<notin> set (nodes (Node l a lv r)) \<longrightarrow> x \<noteq> node \<longrightarrow> H x = h x"
    proof (intro allI impI)
      fix x assume x: "x \<notin> set (nodes (Node l a lv r))" "x \<noteq> node"
      hence xx: "x \<noteq> a" "x \<notin> set (nodes r)" "x \<notin> set (nodes l)" by auto
      hence "x \<notin> set (nodes ?u)" using r'sub x(2) by auto
      hence "H x = ?h2 x" using frH by simp
      moreover have "x \<noteq> tmp" using tmpin r'sub xx x(2) by auto
      hence "?h2 x = h1 x" using xx by (auto simp: setters)
      moreover have "h1 x = h x" using fr1 xx x(2) by auto
      ultimately show "H x = h x" by simp
    qed
    have c3: "node \<notin> set (nodes ?t') \<longrightarrow> H node = h node"
    proof
      assume "node \<notin> set (nodes ?t')"
      hence nn: "node \<notin> set (nodes ?u)" "node \<notin> set (nodes ?l')" unfolding nt' by auto
      hence "H node = ?h2 node" using frH by simp
      moreover have "node \<noteq> tmp" using tmpin nn by auto
      hence "?h2 node = h1 node" using nodet by (auto simp: setters)
      ultimately show "H node = h node" using keep1 nn by simp
    qed
    have c4: "\<forall>x \<in> insert node A. state (H x) = Open"
    proof
      fix x assume x: "x \<in> insert node A"
      show "state (H x) = Open"
      proof (cases "x = a")
        case True
        then show ?thesis using saH by simp
      next
        case False
        then show ?thesis using stH st2 st1 x by auto
      qed
    qed
    have c5: "pclosed (A \<union> set (nodes ?t')) H" unfolding nt' using pcH by simp
    show ?thesis unfolding fuel ca
      apply (rule exI[of _ "(q, tree1, H)"])
      using res c1 c2 c3 c4 c5 tH q unfolding t'eq[symmetric]
      by (simp add: ins_post_def)
  qed
qed


declare rebal_t.simps [simp del]






lemma dropped_fields[simp]:
  "root (dropped tree a) = root tree" "count (dropped tree a) = count tree - 1"
  "node_cmp (dropped tree a) = node_cmp tree" "release_cb (dropped tree a) = release_cb tree"
  by (simp_all add: dropped_def Let_def)




lemma is_tree_release: "is_tree (rebalancing_release h acq) p t = is_tree h p t"
  by (rule is_tree_frame) (simp add: release_at)





section \<open>The interface on tree values\<close>

lemma walk_t_in_order[simp]: "walk_t AA_WALK_IN_ORDER t = nodes t"
  by (induction t) auto

lemma walk_sub_ok:
  "is_tree h p t \<Longrightarrow> height_t t < fuel \<Longrightarrow> walk_sub fuel h p w = Inr (walk_t w t)"
proof (induction t arbitrary: p fuel)
  case Leaf
  then obtain f where "fuel = Suc f" by (cases fuel) auto
  then show ?case using Leaf by (simp add: Let_def)
next
  case (Node l a lv r)
  then obtain f where fuel: "fuel = Suc f" by (cases fuel) auto
  from Node.prems have pa: "p = a" "a \<noteq> NIL" and tl: "is_tree h (left (h a)) l"
    and tr: "is_tree h (right (h a)) r" and hf: "height_t l < f" "height_t r < f"
    unfolding fuel by auto
  show ?case unfolding fuel pa
    using Node.IH(1)[OF tl hf(1)] Node.IH(2)[OF tr hf(2)] pa(2)
    by (simp add: Let_def)
qed

lemma search_from_ok:
  "is_tree h p t \<Longrightarrow> height_t t < fuel \<Longrightarrow>
     search_from fuel tree h p v = Inr (search_t (node_cmp tree) v t)"
proof (induction t arbitrary: p fuel)
  case Leaf
  then obtain f where "fuel = Suc f" by (cases fuel) auto
  then show ?case using Leaf by simp
next
  case (Node l a lv r)
  then obtain f where fuel: "fuel = Suc f" by (cases fuel) auto
  from Node.prems have pa: "p = a" "a \<noteq> NIL" and tl: "is_tree h (left (h a)) l"
    and tr: "is_tree h (right (h a)) r" and hf: "height_t l < f" "height_t r < f"
    unfolding fuel by auto
  show ?case unfolding fuel pa
    using Node.IH(1)[OF tl hf(1)] Node.IH(2)[OF tr hf(2)] pa(2)
    by (simp add: Let_def)
qed

lemma nilok_nil_node: "h NIL = nil_node \<Longrightarrow> nilok h"
  by (simp add: nilok_def nil_node_def)

lemma length_insert_t:
  "n \<notin> set (nodes t) \<Longrightarrow>
     int (length (nodes (insert_t cmp v n t))) =
       int (length (nodes t)) + (if n \<in> set (nodes (insert_t cmp v n t)) then 1 else 0)"
proof (induction t)
  case Leaf
  then show ?case by simp
next
  case (Node l a lv r)
  note sl = nodes_insert_t_sets[of l cmp v n] and sr = nodes_insert_t_sets[of r cmp v n]
  from Node.prems have nn: "n \<notin> set (nodes l)" "n \<notin> set (nodes r)" "n \<noteq> a" by auto
  show ?case unfolding nodes_insert_t using Node.IH(1)[OF nn(1)] Node.IH(2)[OF nn(2)] nn
    by auto
qed

lemma INV_distinct: "INV val A tree h t \<Longrightarrow> distinct (nodes t) \<and> lvpos t \<and> nilok h"
  using ordered_distinct[of val t] invar_lvpos[of t] nilok_nil_node[of h] by (simp add: INV_def)

lemma aatree_insert_ok:
  assumes inv: "INV val A tree h t" and nA: "node \<notin> A" and nn: "node \<noteq> NIL"
    and hf: "height_t t < fuel" and sk: "small_key (val node)"
  shows "\<exists>tree' h'. aatree_insert fuel tree h (val node) node = Inr (tree', h') \<and>
           INV val (A \<union> set (nodes (insert_t (my_node_cmp val) (val node) node t))) tree' h'
               (insert_t (my_node_cmp val) (val node) node t) \<and>
           release_cb tree' = release_cb tree"
proof -
  let ?t' = "insert_t (my_node_cmp val) (val node) node t"
  let ?h0 = "node_atomic_set_state h node Open"
  from inv have hn: "h NIL = nil_node" and NA: "NIL \<notin> A" and tt: "is_tree h (root tree) t"
    and sub: "set (nodes t) \<subseteq> A" and pc: "pclosed A h" and op: "\<forall>a \<in> A. state (h a) = Open"
    and iv: "invar t" and ord: "ordered val t" and cnt: "count tree = int (length (nodes t))"
    and cmp: "node_cmp tree = my_node_cmp val" by (auto simp: INV_def)
  note dl = INV_distinct[OF inv]
  obtain f where fuel: "fuel = Suc f" using hf by (cases fuel) auto
  have n0: "nilok ?h0" using dl nn by (simp add: nilok_def setters)
  have t0: "is_tree ?h0 (root tree) t" using tt by (subst is_tree_frame[where h=h]) (auto simp: setters)
  have pc0: "pclosed A ?h0" using pc by (auto simp: pclosed_def setters)
  have op0: "\<forall>a \<in> A. state (?h0 a) = Open" using op by (auto simp: setters)
  have so: "state (?h0 node) = Open" by (simp add: setters)
  have nt: "node \<notin> set (nodes t)" using nA sub by auto
  have d: "distinct (nodes t)" and lp: "lvpos t" using dl by auto
  have p1: "NIL \<in> insert NIL A" by simp
  have p2: "NIL \<notin> set (nodes t)" using sub NA by auto
  from insert_sub_ok[OF n0 t0 d lp sub pc0 NA op0 p1 p2 nA nn so hf, of tree "val node"]
  obtain res where rec: "insert_sub fuel tree ?h0 (root tree) NIL (val node) node = Inr res"
    and post: "ins_post A ?h0 t NIL node tree ?t' res" unfolding cmp by blast
  obtain q tree1 h' where res: "res = (q, tree1, h')" by (cases res)
  from post have q: "q = top ?t'"
    and tree1: "tree1 = tree\<lparr>count := count tree + (if node \<in> set (nodes ?t') then 1 else 0)\<rparr>"
    and t1: "is_tree h' q ?t'"
    and fr1: "\<forall>x. x \<notin> set (nodes t) \<longrightarrow> x \<noteq> node \<longrightarrow> h' x = ?h0 x"
    and st1: "\<forall>x \<in> insert node A. state (h' x) = Open"
    and pc1: "pclosed (A \<union> set (nodes ?t')) h'"
    unfolding res by (auto simp: ins_post_def)
  have qn: "q \<noteq> NIL" using t1 by (cases ?t') auto
  have run: "aatree_insert fuel tree h (val node) node = Inr (tree1\<lparr>root := q\<rparr>, h')"
    unfolding aatree_insert_def fuel using rec[unfolded fuel res] qn by (simp add: Let_def)
  have "NIL \<notin> set (nodes t)" using sub NA by auto
  hence hN: "h' NIL = nil_node" using fr1 nn hn by (simp add: setters)
  note ns = nodes_insert_t_sets[of t "my_node_cmp val" "val node" node]
  have NA': "NIL \<notin> A \<union> set (nodes ?t')" using ns NA nn sub by auto
  have op1: "\<forall>a \<in> A \<union> set (nodes ?t'). state (h' a) = Open" using st1 ns sub by auto
  have cnt1: "count (tree1\<lparr>root := q\<rparr>) = int (length (nodes ?t'))"
    unfolding tree1 using length_insert_t[OF nt, of "my_node_cmp val" "val node"] cnt by simp
  have "INV val (A \<union> set (nodes ?t')) (tree1\<lparr>root := q\<rparr>) h' ?t'"
    unfolding INV_def using hN NA' t1 pc1 op1 invar_insert_t[OF iv] ordered_insert_t[OF ord sk] cnt1
    by (simp add: tree1 cmp)
  moreover have "release_cb (tree1\<lparr>root := q\<rparr>) = release_cb tree" by (simp add: tree1)
  ultimately show ?thesis using run by blast
qed



lemma length_insert_t_le: "length (nodes (insert_t cmp v n t)) \<le> Suc (length (nodes t))"
  by (induction t) auto

lemma aatree_search_ok:
  assumes "INV val A tree h t" "height_t t < fuel"
  shows "aatree_search fuel tree h v = Inr (search_t (my_node_cmp val) v t)"
  using assms search_from_ok[of h "root tree" t fuel tree v]
  by (simp add: aatree_search_def INV_def)








lemma INV_init: "h NIL = nil_node \<Longrightarrow> INV val {} (aatree_init (my_node_cmp val) cb) h Leaf"
  by (simp add: INV_def aatree_init_def pclosed_def)


lemma is_tree_left: "nilok h \<Longrightarrow> is_tree h p t \<Longrightarrow> is_tree h (left (h p)) (left_of t)"
  by (cases t) (auto simp: nilok_def)





lemma height_skew_t: "height_t (skew_t t) \<le> Suc (height_t t)"
  by (cases t rule: skew_t.cases) auto

lemma height_split_t: "height_t (split_t t) \<le> Suc (height_t t)"
  by (cases t rule: split_t.cases) auto

lemma run_inserts_ok:
  assumes "INV val A tree h t" "distinct (map val ns)" "val ` set ns \<inter> val ` set (nodes t) = {}"
    "set ns \<inter> A = {}" "NIL \<notin> set ns" "length (nodes t) + length ns < fuel"
    "\<forall>n \<in> set ns. small_key (val n)"
  shows "\<exists>tree' h' t' A'. run_calls fuel (tree, h) (insert_calls val ns) = Inr (tree', h') \<and>
           INV val A' tree' h' t' \<and> set (nodes t') = set (nodes t) \<union> set ns \<and>
           length (nodes t') \<le> length (nodes t) + length ns"
  using assms
proof (induction ns arbitrary: tree h t A)
  case Nil
  show ?case using Nil.prems(1)
    by (intro exI[of _ tree] exI[of _ h] exI[of _ t] exI[of _ A]) (simp add: insert_calls_def)
next
  case (Cons n ns)
  note inv = Cons.prems(1)
  have hf: "height_t t < fuel" using Cons.prems(6) height_le_nodes[of t] by simp
  have nA: "n \<notin> A" and nn: "n \<noteq> NIL" using Cons.prems(4,5) by auto
  have sk: "small_key (val n)" and sks: "\<forall>n \<in> set ns. small_key (val n)"
    using Cons.prems(7) by auto
  let ?t1 = "insert_t (my_node_cmp val) (val n) n t"
  from aatree_insert_ok[OF inv nA nn hf sk]
  obtain tree1 h1 where r1: "aatree_insert fuel tree h (val n) n = Inr (tree1, h1)"
    and i1: "INV val (A \<union> set (nodes ?t1)) tree1 h1 ?t1" by blast
  from inv have o: "ordered val t" and sub: "set (nodes t) \<subseteq> A" by (auto simp: INV_def)
  have vn: "val n \<notin> val ` set (nodes t)" using Cons.prems(3) by auto
  have s1: "set (nodes ?t1) = insert n (set (nodes t))" using set_insert_t[OF o sk] vn by simp
  have d1: "distinct (map val ns)" using Cons.prems(2) by simp
  have nns: "val n \<notin> val ` set ns" using Cons.prems(2) by auto
  have v1: "val ` set ns \<inter> val ` set (nodes ?t1) = {}"
    unfolding s1 using Cons.prems(3) nns by auto
  have a1: "set ns \<inter> (A \<union> set (nodes ?t1)) = {}"
    unfolding s1 using Cons.prems(4) nns sub by auto
  have n1: "NIL \<notin> set ns" using Cons.prems(5) by simp
  have l1: "length (nodes ?t1) \<le> Suc (length (nodes t))" by (rule length_insert_t_le)
  hence f1: "length (nodes ?t1) + length ns < fuel" using Cons.prems(6) by simp
  from Cons.IH[OF i1 d1 v1 a1 n1 f1 sks]
  obtain tree' h' t' A' where r: "run_calls fuel (tree1, h1) (insert_calls val ns) = Inr (tree', h')"
    and i: "INV val A' tree' h' t'" and s: "set (nodes t') = set (nodes ?t1) \<union> set ns"
    and l: "length (nodes t') \<le> length (nodes ?t1) + length ns" by blast
  have rr: "run_calls fuel (tree, h) (insert_calls val (n # ns)) = Inr (tree', h')"
    using r1 r by (simp add: insert_calls_def)
  have ss: "set (nodes t') = set (nodes t) \<union> set (n # ns)" using s s1 by auto
  have ll: "length (nodes t') \<le> length (nodes t) + length (n # ns)" using l l1 by simp
  show ?case using rr i ss ll by blast
qed

lemma inserts_from_init:
  assumes "distinct (map val ns)" "NIL \<notin> set ns" "h0 NIL = nil_node" "length ns < fuel"
    "\<forall>n \<in> set ns. small_key (val n)"
  shows "\<exists>tree h t A. run_calls fuel (aatree_init (my_node_cmp val) cb, h0) (insert_calls val ns) = Inr (tree, h) \<and>
           INV val A tree h t \<and> set (nodes t) = set ns \<and> height_t t < fuel"
proof -
  note i0 = INV_init[of h0 val cb, OF assms(3)]
  have "length (nodes Leaf) + length ns < fuel" using assms(4) by simp
  from run_inserts_ok[OF i0 assms(1) _ _ assms(2) this assms(5)]
  obtain tree h t A where r: "run_calls fuel (aatree_init (my_node_cmp val) cb, h0) (insert_calls val ns) = Inr (tree, h)"
    and i: "INV val A tree h t" and s: "set (nodes t) = set (nodes Leaf) \<union> set ns"
    and l: "length (nodes t) \<le> length (nodes Leaf) + length ns" by auto
  have "height_t t < fuel" using l height_le_nodes[of t] assms(4) by simp
  then show ?thesis using r i s by auto
qed

lemma search_present:
  assumes "ordered val t" "n \<in> set (nodes t)" "inj_on val (set (nodes t))"
  shows "search_t (my_node_cmp val) (val n) t = Some n"
proof -
  note sk = ordered_small[OF assms(1,2)]
  obtain m where "search_t (my_node_cmp val) (val n) t = Some m"
    using search_t_None[OF assms(1) sk] assms(2) by (cases "search_t (my_node_cmp val) (val n) t") auto
  moreover from this have "m \<in> set (nodes t) \<and> val m = val n" using search_t_found[OF assms(1) sk] by simp
  ultimately show ?thesis using assms(2,3) by (auto dest: inj_onD)
qed

lemma ordered_inj: "ordered val t \<Longrightarrow> inj_on val (set (nodes t))"
  using ordered_sorted[of val t] by (metis distinct_map strict_sorted_iff)

section \<open>Inserting a key that is present\<close>






section \<open>Evaluated runs\<close>



section \<open>Properties of whole runs\<close>

text \<open>
  The runs considered start from \<open>aatree_init\<close> on a store whose sentinel has its
  initial value. They are well formed (\<open>well_formed_run\<close>): every node handed to
  \<open>aatree_insert\<close> is a new one, not the sentinel, and is inserted under its own key, as
  \<open>my_insert\<close> of \<open>main.c\<close> does with \<open>make_node\<close>, and the keys passed are in the
  range \<open>small_key\<close>, on which \<open>my_node_cmp\<close> is the order of the integers (further apart,
  the difference it returns overflows). \<open>aatree_destroy\<close> is only called on a tree that
  has a release callback. The fuel exceeds the number of calls, which bounds the height of
  every tree met.
\<close>



text \<open>
  Claim C2. After inserting nodes with pairwise distinct keys (in the range \<open>small_key\<close>)
  into the empty tree, \<open>aatree_search\<close> returns for each inserted key the node inserted
  under it, on which the comparison gives 0, and returns the null result for every key of
  the range that was not inserted.
\<close>

theorem inserted_keys_are_found:
  assumes "distinct (map val ns)" "NIL \<notin> set ns" "h0 NIL = nil_node" "length ns < fuel"
    "\<forall>n \<in> set ns. small_key (val n)"
  shows "\<exists>tree h. run_calls fuel (aatree_init (my_node_cmp val) cb, h0) (insert_calls val ns) = Inr (tree, h) \<and>
           (\<forall>n \<in> set ns. aatree_search fuel tree h (val n) = Inr (Some n) \<and> node_cmp tree (val n) n = 0) \<and>
           (\<forall>v. small_key v \<and> v \<notin> val ` set ns \<longrightarrow> aatree_search fuel tree h v = Inr None)"
proof -
  from inserts_from_init[of val ns h0 fuel cb, OF assms]
  obtain tree h t A where r: "run_calls fuel (aatree_init (my_node_cmp val) cb, h0) (insert_calls val ns) = Inr (tree, h)"
    and i: "INV val A tree h t" and s: "set (nodes t) = set ns" and hf: "height_t t < fuel" by blast
  from i have o: "ordered val t" and c: "node_cmp tree = my_node_cmp val" by (auto simp: INV_def)
  note se = aatree_search_ok[OF i hf]
  have a: "\<forall>n \<in> set ns. aatree_search fuel tree h (val n) = Inr (Some n) \<and> node_cmp tree (val n) n = 0"
  proof
    fix n assume n: "n \<in> set ns"
    hence nt: "n \<in> set (nodes t)" using s by simp
    have "my_node_cmp val (val n) n = 0"
      using cmp_small[of "val n" val n] assms(5) n by simp
    then show "aatree_search fuel tree h (val n) = Inr (Some n) \<and> node_cmp tree (val n) n = 0"
      using search_present[OF o nt ordered_inj[OF o]] by (simp add: se c)
  qed
  have b: "\<forall>v. small_key v \<and> v \<notin> val ` set ns \<longrightarrow> aatree_search fuel tree h v = Inr None"
    using search_t_None[OF o] s by (simp add: se)
  from r a b show ?thesis by blast
qed

theorem inserted_keys_are_found_witness:
  "\<exists>tree h. run_calls 4 (aatree_init (my_node_cmp demo_val) True, empty_store)
                 (insert_calls demo_val [1, 2, 3]) = Inr (tree, h) \<and>
     aatree_search 4 tree h 1 = Inr (Some 1) \<and> aatree_search 4 tree h 2 = Inr (Some 2) \<and>
     aatree_search 4 tree h 3 = Inr (Some 3) \<and> aatree_search 4 tree h 7 = Inr None"
proof -
  have d: "distinct (map demo_val [1, 2, 3])" by (simp add: demo_val_def)
  have n: "NIL \<notin> set [1, 2, 3]" by (simp add: NIL_def)
  have e: "empty_store NIL = nil_node" by (simp add: empty_store_def)
  have l: "length [1::addr, 2, 3] < 4" by simp
  have k: "\<forall>n \<in> set [1, 2, 3]. small_key (demo_val n)" by (simp add: demo_val_def small_key_def)
  from inserted_keys_are_found[where val = demo_val and ns = "[1, 2, 3]" and ?h0.0 = empty_store
      and fuel = 4 and cb = True, OF d n e l k]
  obtain tree h where
    r: "run_calls 4 (aatree_init (my_node_cmp demo_val) True, empty_store)
                 (insert_calls demo_val [1, 2, 3]) = Inr (tree, h)"
    and a: "\<forall>n \<in> set [1, 2, 3]. aatree_search 4 tree h (demo_val n) = Inr (Some n) \<and> node_cmp tree (demo_val n) n = 0"
    and b: "\<forall>v. small_key v \<and> v \<notin> demo_val ` set [1, 2, 3] \<longrightarrow> aatree_search 4 tree h v = Inr None" by blast
  have "aatree_search 4 tree h 7 = Inr None"
    using b[rule_format, of 7] by (simp add: demo_val_def small_key_def)
  then show ?thesis using r a by (auto simp: demo_val_def)
qed







text \<open>
  Claim C10. On a store holding a tree of distinct nodes with positive levels at \<open>x\<close>, the
  in-order walk from the node returned by \<open>skew\<close>, and from the node returned by
  \<open>split\<close>, in the store they leave, visits the same nodes in the same order as the
  in-order walk from \<open>x\<close> before.
\<close>

theorem rotations_keep_in_order_sequence:
  assumes "h NIL = nil_node" "is_tree h x t" "distinct (nodes t)" "lvpos t" "height_t t < fuel"
  shows "walk_sub fuel h x AA_WALK_IN_ORDER = Inr (nodes t) \<and>
         walk_sub (Suc fuel) (fst (skew h x)) (snd (skew h x)) AA_WALK_IN_ORDER = Inr (nodes t) \<and>
         walk_sub (Suc fuel) (fst (split h x)) (snd (split h x)) AA_WALK_IN_ORDER = Inr (nodes t)"
proof -
  have n: "nilok h" using assms(1) by (rule nilok_nil_node)
  have w0: "walk_sub fuel h x AA_WALK_IN_ORDER = Inr (nodes t)"
    using walk_sub_ok[OF assms(2,5), of AA_WALK_IN_ORDER] by simp
  obtain h1 q1 where s1: "skew h x = (h1, q1)" by (cases "skew h x")
  obtain h2 q2 where s2: "split h x = (h2, q2)" by (cases "split h x")
  have t1: "is_tree h1 q1 (skew_t t)"
    using refines_skew[unfolded refines_def, rule_format, of h x t UNIV] n assms(2,3,4) s1
    by (simp add: pclosed_def)
  have t2: "is_tree h2 q2 (split_t t)"
    using refines_split[unfolded refines_def, rule_format, of h x t UNIV] n assms(2,3,4) s2
    by (simp add: pclosed_def)
  have h1: "height_t (skew_t t) < Suc fuel" using height_skew_t[of t] assms(5) by simp
  have h2: "height_t (split_t t) < Suc fuel" using height_split_t[of t] assms(5) by simp
  have w1: "walk_sub (Suc fuel) h1 q1 AA_WALK_IN_ORDER = Inr (nodes t)"
    using walk_sub_ok[OF t1 h1, of AA_WALK_IN_ORDER] by simp
  have w2: "walk_sub (Suc fuel) h2 q2 AA_WALK_IN_ORDER = Inr (nodes t)"
    using walk_sub_ok[OF t2 h2, of AA_WALK_IN_ORDER] by simp
  show ?thesis using w0 w1 w2 by (simp add: s1 s2)
qed

theorem rotations_keep_in_order_sequence_witness:
  "walk_sub 5 demo_heap 5 AA_WALK_IN_ORDER = Inr [2, 3, 4, 7, 5, 6] \<and>
   snd (skew demo_heap 5) = 3 \<and>
   walk_sub 6 (fst (skew demo_heap 5)) (snd (skew demo_heap 5)) AA_WALK_IN_ORDER = Inr [2, 3, 4, 7, 5, 6] \<and>
   walk_sub 6 (fst (split demo_heap 5)) (snd (split demo_heap 5)) AA_WALK_IN_ORDER = Inr [2, 3, 4, 7, 5, 6]"
proof -
  have n: "demo_heap NIL = nil_node" by (simp add: demo_heap_def NIL_def)
  have t: "is_tree demo_heap 5 demo_tree"
    by (simp add: demo_heap_def demo_tree_def NIL_def nil_node_def)
  have d: "distinct (nodes demo_tree)" by (simp add: demo_tree_def)
  have p: "lvpos demo_tree" by (simp add: demo_tree_def)
  have f: "height_t demo_tree < 5" by (simp add: demo_tree_def)
  have s: "snd (skew demo_heap 5) = 3" by (simp add: skew_def demo_heap_def NIL_def Let_def)
  have e: "nodes demo_tree = [2, 3, 4, 7, 5, 6]" by (simp add: demo_tree_def)
  from rotations_keep_in_order_sequence[OF n t d p f] s show ?thesis by (simp add: e)
qed

end
